theory Spec2Isabelle
  imports Main "HOL-Library.Word"
begin

unbundle bit_operations_syntax

section \<open>JavaScript values used by the sources\<close>

text \<open>
  The sources are plain JavaScript. Strings are modelled as \<open>string\<close>; the inputs of
  interest are ASCII (digits, dots, slashes, binary digits). A JavaScript number is
  modelled as \<open>NaN\<close> or an exact integer: every number the sources compute from a dotted
  quad and a prefix length between 0 and 32 is an integer far below \<open>2^53\<close>, where
  the double arithmetic of JavaScript is exact. Fractions, infinities and integers beyond
  \<open>2^53\<close> are outside this model, and so is white space outside ASCII.
\<close>

datatype number = NaN | Num int

text \<open>\<open>ToInt32\<close> of ECMAScript: the operand of every bitwise operator, \<open>NaN\<close> is 0.\<close>

definition ToInt32 :: "number \<Rightarrow> 32 word" where
  "ToInt32 x = (case x of NaN \<Rightarrow> 0 | Num n \<Rightarrow> word_of_int n)"

text \<open>\<open>x << k\<close>, \<open>x >>> k\<close>, \<open>x & y\<close>, \<open>~x\<close>: the signed operators give the
  two's complement reading of the 32 bits, \<open>>>>\<close> the unsigned one.\<close>

definition js_shl :: "number \<Rightarrow> nat \<Rightarrow> number" where
  "js_shl x k = Num (sint (push_bit (k mod 32) (ToInt32 x)))"

definition js_ushr :: "number \<Rightarrow> nat \<Rightarrow> number" where
  "js_ushr x k = Num (uint (drop_bit (k mod 32) (ToInt32 x)))"

definition js_and :: "number \<Rightarrow> number \<Rightarrow> number" where
  "js_and x y = Num (sint (ToInt32 x AND ToInt32 y))"

definition js_not :: "number \<Rightarrow> number" where
  "js_not x = Num (sint (NOT (ToInt32 x)))"

definition js_add :: "number \<Rightarrow> number \<Rightarrow> number" where
  "js_add x y = (case (x, y) of (Num a, Num b) \<Rightarrow> Num (a + b) | _ \<Rightarrow> NaN)"

definition js_sub :: "number \<Rightarrow> number \<Rightarrow> number" where
  "js_sub x y = (case (x, y) of (Num a, Num b) \<Rightarrow> Num (a - b) | _ \<Rightarrow> NaN)"

text \<open>\<open>2 ** k\<close> for an exponent that is not negative (in the sources \<open>k\<close> is 32 minus a
  prefix length of at most 32).\<close>

definition js_pow2 :: "number \<Rightarrow> number" where
  "js_pow2 k = (case k of NaN \<Rightarrow> NaN | Num e \<Rightarrow> Num (2 ^ nat e))"

text \<open>Comparisons: every comparison with \<open>NaN\<close> is false.\<close>

definition js_lt :: "number \<Rightarrow> number \<Rightarrow> bool" where
  "js_lt x y = (case (x, y) of (Num a, Num b) \<Rightarrow> a < b | _ \<Rightarrow> False)"

definition js_gt :: "number \<Rightarrow> number \<Rightarrow> bool" where
  "js_gt x y = js_lt y x"

definition js_le :: "number \<Rightarrow> number \<Rightarrow> bool" where
  "js_le x y = (case (x, y) of (Num a, Num b) \<Rightarrow> a \<le> b | _ \<Rightarrow> False)"

subsection \<open>Strings\<close>

text \<open>\<open>s.split(c)\<close> for a separator of one character: never empty, \<open>"".split(c)\<close> is
  \<open>[""]\<close>.\<close>

fun str_split :: "char \<Rightarrow> string \<Rightarrow> string list" where
  "str_split c [] = [[]]"
| "str_split c (x # xs) =
     (if x = c then [] # str_split c xs
      else (case str_split c xs of
              [] \<Rightarrow> [[x]]
            | p # ps \<Rightarrow> (x # p) # ps))"

text \<open>\<open>arr[i]\<close>: \<open>undefined\<close> (here \<open>None\<close>) beyond the end.\<close>

fun at :: "'a list \<Rightarrow> nat \<Rightarrow> 'a option" where
  "at [] i = None"
| "at (x # xs) 0 = Some x"
| "at (x # xs) (Suc i) = at xs i"

definition str_includes :: "string \<Rightarrow> char \<Rightarrow> bool" where
  "str_includes s c = (c \<in> set s)"

definition startsWith :: "string \<Rightarrow> string \<Rightarrow> bool" where
  "startsWith s key = (take (length key) s = key)"

text \<open>White space as \<open>trim\<close> and \<open>parseInt\<close> skip it, within the 8-bit characters of
  \<open>string\<close>: tab, line feed, vertical tab, form feed, carriage return and space.\<close>

definition isWhiteSpace :: "char \<Rightarrow> bool" where
  "isWhiteSpace c = (c \<in> {CHR 0x09, CHR 0x0A, CHR 0x0B, CHR 0x0C, CHR 0x0D, CHR 0x20})"

definition trim :: "string \<Rightarrow> string" where
  "trim s = rev (dropWhile isWhiteSpace (rev (dropWhile isWhiteSpace s)))"

text \<open>\<open>s.slice(0, n)\<close>: \<open>NaN\<close> counts as 0, a negative \<open>n\<close> counts from the end.\<close>

definition slice0 :: "string \<Rightarrow> number \<Rightarrow> string" where
  "slice0 s n = (case n of
       NaN \<Rightarrow> []
     | Num k \<Rightarrow> (if k < 0 then take (nat (int (length s) + k)) s else take (nat k) s))"

definition padStart :: "string \<Rightarrow> nat \<Rightarrow> char \<Rightarrow> string" where
  "padStart s n c = replicate (n - length s) c @ s"

fun join :: "string \<Rightarrow> string list \<Rightarrow> string" where
  "join sep [] = []"
| "join sep [x] = x"
| "join sep (x # y # ys) = x @ sep @ join sep (y # ys)"

subsection \<open>Numbers from and to text\<close>

definition isDigit :: "char \<Rightarrow> bool" where
  "isDigit c = (48 \<le> (of_char c :: nat) \<and> (of_char c :: nat) \<le> 57)"

definition digitVal :: "char \<Rightarrow> nat" where
  "digitVal c = of_char c - 48"

definition isHexDigit :: "char \<Rightarrow> bool" where
  "isHexDigit c = (isDigit c \<or> (65 \<le> (of_char c :: nat) \<and> (of_char c :: nat) \<le> 70)
                            \<or> (97 \<le> (of_char c :: nat) \<and> (of_char c :: nat) \<le> 102))"

definition hexVal :: "char \<Rightarrow> nat" where
  "hexVal c = (if isDigit c then digitVal c
               else if (of_char c :: nat) \<le> 70 then of_char c - 55 else of_char c - 87)"

definition digitsVal :: "string \<Rightarrow> nat" where
  "digitsVal ds = foldl (\<lambda>acc c. acc * 10 + digitVal c) 0 ds"

definition hexDigitsVal :: "string \<Rightarrow> nat" where
  "hexDigitsVal ds = foldl (\<lambda>acc c. acc * 16 + hexVal c) 0 ds"

text \<open>The sign that \<open>parseInt\<close> reads after the leading white space.\<close>

fun readSign :: "string \<Rightarrow> int \<times> string" where
  "readSign [] = (1, [])"
| "readSign (c # cs) =
     (if c = CHR ''-'' then (- 1, cs) else if c = CHR ''+'' then (1, cs) else (1, c # cs))"

definition hexPrefix :: "string \<Rightarrow> bool" where
  "hexPrefix s = (take 2 s = ''0x'' \<or> take 2 s = ''0X'')"

text \<open>\<open>parseInt(s, 10)\<close>: white space, a sign, then the longest run of decimal digits;
  \<open>NaN\<close> when there is no digit. The value is the exact integer, which is what
  JavaScript gives up to \<open>2^53\<close> (any run of at most 15 digits).\<close>

definition parseInt10 :: "string \<Rightarrow> number" where
  "parseInt10 s =
     (let (sign, rest) = readSign (dropWhile isWhiteSpace s);
          ds = takeWhile isDigit rest
      in if ds = [] then NaN else Num (sign * int (digitsVal ds)))"

text \<open>\<open>parseInt(s)\<close> with no radix: as above, but a \<open>0x\<close> prefix switches to base 16.\<close>

definition parseInt :: "string \<Rightarrow> number" where
  "parseInt s =
     (let (sign, rest) = readSign (dropWhile isWhiteSpace s)
      in if hexPrefix rest
         then (let hs = takeWhile isHexDigit (drop 2 rest)
               in if hs = [] then NaN else Num (sign * int (hexDigitsVal hs)))
         else (let ds = takeWhile isDigit rest
               in if ds = [] then NaN else Num (sign * int (digitsVal ds))))"

text \<open>\<open>parseInt(undefined)\<close> reads the text \<open>"undefined"\<close>, which has no digit.\<close>

definition parseInt_opt :: "string option \<Rightarrow> number" where
  "parseInt_opt s = (case s of None \<Rightarrow> NaN | Some t \<Rightarrow> parseInt t)"

text \<open>\<open>Number(s)\<close> on the texts the sources give it: \<open>undefined\<close> is \<open>NaN\<close>, blank text
  is 0, an optionally signed run of decimal digits is its value. Other numeric literals
  (hexadecimal, fractions, exponents) do not occur as prefix lengths and are read as
  \<open>NaN\<close> here.\<close>

definition Number :: "string option \<Rightarrow> number" where
  "Number s = (case s of
       None \<Rightarrow> NaN
     | Some t \<Rightarrow>
         (let u = trim t; (sign, ds) = readSign u
          in if u = [] then Num 0
             else if ds \<noteq> [] \<and> list_all isDigit ds then Num (sign * int (digitsVal ds))
             else NaN))"

definition digitChar :: "nat \<Rightarrow> char" where
  "digitChar d = char_of (48 + d)"

fun natToString :: "nat \<Rightarrow> nat \<Rightarrow> string" where
  "natToString radix n =
     (if radix < 2 \<or> n < radix then [digitChar n]
      else natToString radix (n div radix) @ [digitChar (n mod radix)])"

text \<open>\<open>x.toString(radix)\<close> and \<open>`${x}`\<close> for the integers that occur (radix 2 or 10).\<close>

definition toString :: "nat \<Rightarrow> number \<Rightarrow> string" where
  "toString radix x = (case x of
       NaN \<Rightarrow> ''NaN''
     | Num n \<Rightarrow> (if n < 0 then CHR ''-'' # natToString radix (nat (- n))
                else natToString radix (nat n)))"

section \<open>utils/RadixTree.js\<close>

text \<open>
  (The classes \<open>RadixNode\<close> and \<open>RadixTree\<close>, lines 1 to 105 of src/utils/RadixTree.js.)

  A \<open>RadixNode\<close> has the fields \<open>value\<close> (here \<open>val\<close>), \<open>children\<close> and \<open>isEnd\<close>.
  \<open>children\<close> is a JavaScript \<open>Map\<close>, which iterates in insertion order: an association
  list in that order. The nodes of a tree are not shared, so the in-place updates of
  \<open>insert\<close> are modelled by rebuilding the path from the root.
\<close>

datatype RadixNode =
  RadixNode (val: string) (children: "(string \<times> RadixNode) list") (isEnd: bool)

text \<open>\<open>new RadixNode(value)\<close>.\<close>

definition newRadixNode :: "string \<Rightarrow> RadixNode" where
  "newRadixNode v = RadixNode v [] False"

text \<open>\<open>map.set(k, v)\<close>: an existing key keeps its place, a new key goes last.\<close>

fun map_set :: "('k \<times> 'v) list \<Rightarrow> 'k \<Rightarrow> 'v \<Rightarrow> ('k \<times> 'v) list" where
  "map_set [] k v = [(k, v)]"
| "map_set ((k', v') # m) k v =
     (if k' = k then (k, v) # m else (k', v') # map_set m k v)"

text \<open>\<open>_commonPrefixLength\<close>: the index loop, as a recursion on both strings.\<close>

fun commonPrefixLength :: "string \<Rightarrow> string \<Rightarrow> nat" where
  "commonPrefixLength (x # xs) (y # ys) =
     (if x = y then Suc (commonPrefixLength xs ys) else 0)"
| "commonPrefixLength _ _ = 0"

text \<open>The \<open>for\<close> loop of \<open>insert\<close>: the first entry of the map whose key shares a
  non-empty prefix with \<open>prefix\<close>.\<close>

definition firstCommon :: "string \<Rightarrow> (string \<times> RadixNode) list \<Rightarrow> (string \<times> RadixNode) option" where
  "firstCommon prefix cs = find (\<lambda>(key, child). 0 < commonPrefixLength prefix key) cs"

text \<open>The \<open>for\<close> loop of \<open>search\<close>: the first entry whose key starts \<open>binaryIP\<close>.\<close>

definition firstStarting :: "string \<Rightarrow> (string \<times> RadixNode) list \<Rightarrow> (string \<times> RadixNode) option" where
  "firstStarting binaryIP cs = find (\<lambda>(key, child). startsWith binaryIP key) cs"

lemma firstCommon_Some:
  "firstCommon prefix cs = Some (key, child) \<Longrightarrow>
     0 < commonPrefixLength prefix key \<and> (key, child) \<in> set cs"
  by (auto simp: firstCommon_def find_Some_iff in_set_conv_nth)

lemma firstStarting_Some:
  "firstStarting s cs = Some (key, child) \<Longrightarrow> startsWith s key \<and> (key, child) \<in> set cs"
  by (auto simp: firstStarting_def find_Some_iff in_set_conv_nth)

lemma commonPrefixLength_le: "commonPrefixLength xs ys \<le> length xs"
  by (induction xs ys rule: commonPrefixLength.induct) auto

lemma child_size: "(key, child) \<in> set cs \<Longrightarrow> size child < Suc (size_list (size_prod (\<lambda>x. 0) size) cs)"
  by (induction cs) auto

text \<open>
  The \<open>while\<close> loop of \<open>insert\<close>, started at \<open>node\<close> with \<open>prefix\<close> left to place; the
  result is \<open>node\<close> after the updates. In the split branch the source rewrites the
  fields of \<open>child\<close> (value, children, isEnd); the entry of \<open>node.children\<close> that holds
  \<open>child\<close> keeps its key.
\<close>

function insert_node :: "RadixNode \<Rightarrow> string \<Rightarrow> RadixNode" where
  "insert_node node prefix =
     (if prefix = [] then RadixNode (val node) (children node) True
      else
        (case firstCommon prefix (children node) of
           None \<Rightarrow>
             RadixNode (val node)
               (map_set (children node) prefix (RadixNode prefix [] True))
               (isEnd node)
         | Some (key, child) \<Rightarrow>
             (let commonLength = commonPrefixLength prefix key;
                  commonPrefix = take commonLength prefix;
                  remainingPrefix = drop commonLength prefix;
                  remainingKey = drop commonLength key;
                  child' =
                    (if remainingKey \<noteq> []
                     then RadixNode commonPrefix
                            [(remainingKey, RadixNode remainingKey (children child) (isEnd child))]
                            False
                     else child)
              in RadixNode (val node)
                   (map_set (children node) key (insert_node child' remainingPrefix))
                   (isEnd node))))"
  by pat_completeness auto
termination
proof (relation "measure (\<lambda>(node, prefix). length prefix)")
  show "wf (measure (\<lambda>(node, prefix). length prefix))" by simp
next
  fix node :: RadixNode and prefix :: string and x2 x y xa xb xc xd xe
  assume "prefix \<noteq> []" and "firstCommon prefix (children node) = Some x2"
    and "(x, y) = x2" and "xa = commonPrefixLength prefix x"
    and "xc = drop xa prefix"
  then have "0 < xa" using firstCommon_Some [of prefix "children node" x y] by simp
  with \<open>prefix \<noteq> []\<close> \<open>xc = drop xa prefix\<close>
  show "((xe, xc), node, prefix) \<in> measure (\<lambda>(node, prefix). length prefix)"
    by simp
qed

text \<open>The loop of \<open>search\<close>, started at \<open>node\<close>.\<close>

function search_node :: "RadixNode \<Rightarrow> string \<Rightarrow> bool" where
  "search_node node binaryIP =
     (if binaryIP \<noteq> [] then
        (case firstStarting binaryIP (children node) of
           None \<Rightarrow> isEnd node
         | Some (key, child) \<Rightarrow>
             (if isEnd child then True
              else search_node child (drop (length key) binaryIP)))
      else isEnd node)"
  by pat_completeness auto
termination
proof (relation "measure (\<lambda>(node, binaryIP). size node)")
  show "wf (measure (\<lambda>(node, binaryIP). size node))" by simp
next
  fix node :: RadixNode and binaryIP :: string and x2 x y
  assume "firstStarting binaryIP (children node) = Some x2" and "(x, y) = x2"
  then have "(x, y) \<in> set (children node)"
    using firstStarting_Some [of binaryIP "children node" x y] by simp
  then have "size y < size node"
    using child_size [of x y "children node"] by (cases node) simp
  then show "((y, drop (length x) binaryIP), node, binaryIP) \<in> measure (\<lambda>(node, binaryIP). size node)"
    by simp
qed

record RadixTree =
  root :: RadixNode

definition newRadixTree :: RadixTree where
  "newRadixTree = \<lparr>root = newRadixNode []\<rparr>"

text \<open>\<open>RadixTree.insert\<close> and \<open>RadixTree.search\<close>.\<close>

definition RadixTree_insert :: "RadixTree \<Rightarrow> string \<Rightarrow> RadixTree" where
  "RadixTree_insert tree prefix = tree\<lparr>root := insert_node (root tree) prefix\<rparr>"

definition RadixTree_search :: "RadixTree \<Rightarrow> string \<Rightarrow> bool" where
  "RadixTree_search tree binaryIP = search_node (root tree) binaryIP"

text \<open>The agreement between map keys and node values that \<open>search\<close> and \<open>insert\<close>
  rely on when they walk by key: every child is stored under its own \<open>value\<close>.\<close>

fun keysAgree :: "RadixNode \<Rightarrow> bool" where
  "keysAgree (RadixNode v cs e) =
     list_all (\<lambda>(key, child). val child = key \<and> keysAgree child) cs"

section \<open>utils/iputils.js\<close>

text \<open>The functions that download.js and IpChecker.js import from utils/iputils.js
  (lines 157 to 265 of src/utils/RadixTree.js).\<close>

lemma str_split_nonempty: "str_split c s \<noteq> []"
  by (induction s) (auto split: list.splits)

text \<open>\<open>ipToNumber\<close>: \<open>ip.split(".").reduce((acc, octet) => (acc << 8) + parseInt(octet), 0)\<close>.
  There is no check of the number of pieces or of their range.\<close>

definition ipToNumber :: "string \<Rightarrow> number" where
  "ipToNumber ip =
     foldl (\<lambda>acc octet. js_add (js_shl acc 8) (parseInt octet)) (Num 0) (str_split CHR ''.'' ip)"

definition numberToIp :: "number \<Rightarrow> string" where
  "numberToIp num =
     join ''.'' (map (toString 10)
       [js_and (js_ushr num 24) (Num 255),
        js_and (js_ushr num 16) (Num 255),
        js_and (js_ushr num 8) (Num 255),
        js_and num (Num 255)])"

text \<open>\<open>cidrToRange\<close>: \<open>const [ip, prefix] = cidr.split("/")\<close> takes the first two
  pieces; \<open>prefix\<close> is \<open>undefined\<close> when there is no slash. (For a prefix length
  above 32 the source computes with the fraction \<open>2 ** maskBits\<close>, which this model
  does not follow.)\<close>

definition cidrToRange :: "string \<Rightarrow> number \<times> number" where
  "cidrToRange cidr =
     (let parts = str_split CHR ''/'' cidr;
          ip = hd parts;
          prefix = at parts 1;
          ipNum = ipToNumber ip;
          maskBits = js_sub (Num 32) (Number prefix);
          numAddresses = js_pow2 maskBits;
          start = js_and ipNum (js_not (js_sub numAddresses (Num 1)));
          end = js_sub (js_add start numAddresses) (Num 1)
      in (start, end))"

definition ipToBinary :: "string \<Rightarrow> string" where
  "ipToBinary ip =
     concat (map (\<lambda>octet. padStart (toString 2 (parseInt10 octet)) 8 CHR ''0'')
                 (str_split CHR ''.'' ip))"

definition cidrToBinaryPrefix :: "string \<Rightarrow> string" where
  "cidrToBinaryPrefix cidr =
     (let parts = str_split CHR ''/'' cidr;
          ip = hd parts;
          mask = at parts 1
      in slice0 (ipToBinary ip) (parseInt_opt mask))"

text \<open>The errors the sources can raise: the \<open>Error\<close> thrown by \<open>rangeToCIDRs\<close>
  ("Start IP must be less than or equal to End IP"), and the \<open>TypeError\<close> of
  destructuring an array element that does not exist.\<close>

datatype error = InvalidRange | TypeError

text \<open>
  The inner \<open>while (maxSize > 0)\<close> loop of \<open>rangeToCIDRs\<close>; the result is \<open>maxSize\<close>
  when the loop is left, by either \<open>break\<close> or the loop condition. Both loops run only
  when \<open>start <= end\<close> holds, so \<open>start\<close> and \<open>end\<close> are integers there. (For a
  \<open>start\<close> outside the signed 32-bit range the source leaves the integers: \<open>maxSize\<close>
  becomes 33 and the step \<open>2 ** -1\<close>. \<open>ipToNumber\<close> gives such a value only for a last
  piece outside 0..255.)
\<close>

function maxSizeLoop :: "int \<Rightarrow> int \<Rightarrow> int \<Rightarrow> int" where
  "maxSizeLoop start end maxSize =
     (if 0 < maxSize then
        (let mask = js_ushr (js_not (js_sub (js_pow2 (Num (32 - maxSize))) (Num 1))) 0;
             maskedBase = js_and (Num start) mask
         in if maskedBase \<noteq> Num start then maxSize
            else
              (let broadcast = js_sub (js_add (Num start) (js_pow2 (Num (32 - maxSize)))) (Num 1)
               in if js_gt broadcast (Num end) then maxSize
                  else maxSizeLoop start end (maxSize - 1)))
      else maxSize)"
  by pat_completeness auto
termination
proof (relation "measure (\<lambda>(start, end, maxSize). nat maxSize)")
  show "wf (measure (\<lambda>(start, end, maxSize). nat maxSize))" by simp
next
  fix s e m :: int
  assume "0 < m"
  then show "((s, e, m - 1), s, e, m) \<in> measure (\<lambda>(start, end, maxSize). nat maxSize)"
    by simp
qed

text \<open>The outer \<open>while (start <= end)\<close> loop; the result is the list of the pushed
  strings, in order.\<close>

function cidrLoop :: "int \<Rightarrow> int \<Rightarrow> string list" where
  "cidrLoop start end =
     (if start \<le> end then
        (let maxSize = maxSizeLoop start end 32 + 1
         in (numberToIp (Num start) @ ''/'' @ toString 10 (Num maxSize))
              # cidrLoop (start + 2 ^ nat (32 - maxSize)) end)
      else [])"
  by pat_completeness auto
termination
proof (relation "measure (\<lambda>(start, end). nat (end - start + 1))")
  show "wf (measure (\<lambda>(start, end). nat (end - start + 1)))" by simp
next
  fix s e m :: int
  assume "s \<le> e"
  moreover have "(0::int) < 2 ^ nat (32 - m)" by simp
  ultimately show "((s + 2 ^ nat (32 - m), e), s, e)
                     \<in> measure (\<lambda>(start, end). nat (end - start + 1))"
    by simp
qed

definition rangeToCIDRs :: "string \<Rightarrow> string \<Rightarrow> error + string list" where
  "rangeToCIDRs startIP endIP =
     (let start = ipToNumber startIP;
          end = ipToNumber endIP
      in if js_gt start end then Inl InvalidRange
         else Inr (case (start, end) of
                     (Num s, Num e) \<Rightarrow> cidrLoop s e
                   | _ \<Rightarrow> []))"

section \<open>scripts/download.js: \<open>CIDRProcessor.filterContainedCIDRsRadix\<close>\<close>

text \<open>(Lines 492 to 548 of src/utils/RadixTree.js.)\<close>

text \<open>The comparator given to \<open>sort\<close>: CIDRs by prefix length, plain addresses last.\<close>

definition compareCidrs :: "string \<Rightarrow> string \<Rightarrow> number" where
  "compareCidrs a b =
     (let isCidrA = str_includes a CHR ''/'';
          isCidrB = str_includes b CHR ''/''
      in if isCidrA \<and> isCidrB then
           (let lenA = parseInt_opt (at (str_split CHR ''/'' a) 1);
                lenB = parseInt_opt (at (str_split CHR ''/'' b) 1)
            in js_sub lenA lenB)
         else if isCidrA then Num (- 1)
         else if isCidrB then Num 1
         else Num 0)"

text \<open>
  \<open>Array.prototype.sort(cmp)\<close>, as V8 computes it (the engine of Node.js, which runs the
  script). A \<open>NaN\<close> result of the comparator counts as 0, and the engine only asks whether
  a result is below 0. An array of fewer than 64 elements is sorted as one run:
  \<open>CountAndMakeRun\<close> takes the longest initial run that is ascending (no element below its
  predecessor) or strictly descending (each element below its predecessor; this run is
  reversed), and \<open>BinaryInsertionSort\<close> puts each remaining element at the place a binary
  search finds in the part sorted so far. Longer arrays are cut into such runs, which are
  then merged; the sort is stable, so for a consistent comparator the result is the same
  there.
\<close>

text \<open>The loop of \<open>CountAndMakeRun\<close>: the elements that extend the run, and those left.\<close>

fun extendRun :: "('a \<Rightarrow> 'a \<Rightarrow> number) \<Rightarrow> bool \<Rightarrow> 'a \<Rightarrow> 'a list \<Rightarrow> 'a list \<times> 'a list" where
  "extendRun cmp isDescending previousElement [] = ([], [])"
| "extendRun cmp isDescending previousElement (currentElement # rest) =
     (let order = cmp currentElement previousElement
      in if (if isDescending then \<not> js_lt order (Num 0) else js_lt order (Num 0))
         then ([], currentElement # rest)
         else (let (run, rest') = extendRun cmp isDescending currentElement rest
               in (currentElement # run, rest')))"

fun countAndMakeRun :: "('a \<Rightarrow> 'a \<Rightarrow> number) \<Rightarrow> 'a list \<Rightarrow> 'a list \<times> 'a list" where
  "countAndMakeRun cmp [] = ([], [])"
| "countAndMakeRun cmp [x] = ([x], [])"
| "countAndMakeRun cmp (elementHigh # elementLow # rest) =
     (let isDescending = js_lt (cmp elementLow elementHigh) (Num 0);
          (run, rest') = extendRun cmp isDescending elementLow rest
      in (if isDescending then rev (elementHigh # elementLow # run)
          else elementHigh # elementLow # run, rest'))"

text \<open>The binary search of \<open>BinaryInsertionSort\<close> in the sorted part, between \<open>left\<close> and
  \<open>right\<close> (\<open>mid\<close> is below \<open>right\<close>, which is at most the length).\<close>

function insertionPoint :: "('a \<Rightarrow> 'a \<Rightarrow> number) \<Rightarrow> 'a \<Rightarrow> 'a list \<Rightarrow> nat \<Rightarrow> nat \<Rightarrow> nat" where
  "insertionPoint cmp pivot xs left right =
     (if left < right then
        (let mid = left + (right - left) div 2
         in if js_lt (cmp pivot (xs ! mid)) (Num 0)
            then insertionPoint cmp pivot xs left mid
            else insertionPoint cmp pivot xs (mid + 1) right)
      else left)"
  by pat_completeness auto
termination
  by (relation "measure (\<lambda>(cmp, pivot, xs, left, right). right - left)") auto

definition binaryInsert :: "('a \<Rightarrow> 'a \<Rightarrow> number) \<Rightarrow> 'a list \<Rightarrow> 'a \<Rightarrow> 'a list" where
  "binaryInsert cmp xs pivot =
     (let left = insertionPoint cmp pivot xs 0 (length xs)
      in take left xs @ pivot # drop left xs)"

definition js_sort :: "('a \<Rightarrow> 'a \<Rightarrow> number) \<Rightarrow> 'a list \<Rightarrow> 'a list" where
  "js_sort cmp xs =
     (let (run, rest) = countAndMakeRun cmp xs
      in foldl (binaryInsert cmp) run rest)"

text \<open>\<open>new Set(xs)\<close>: the elements of \<open>xs\<close> in order, each at its first occurrence.\<close>

definition set_add :: "'a list \<Rightarrow> 'a \<Rightarrow> 'a list" where
  "set_add s x = (if x \<in> set s then s else s @ [x])"

definition new_Set :: "'a list \<Rightarrow> 'a list" where
  "new_Set xs = foldl set_add [] xs"

text \<open>The binary prefix the loop computes for one entry.\<close>

definition binaryPrefixOf :: "string \<Rightarrow> string" where
  "binaryPrefixOf cidr =
     (if str_includes cidr CHR ''/'' then cidrToBinaryPrefix cidr else ipToBinary cidr)"

text \<open>The \<open>for\<close> loop over the sorted entries: the entries pushed to \<open>result\<close>, in order,
  from the entries not yet visited and the tree built so far. Logging is left out.\<close>

fun filterLoop :: "RadixTree \<Rightarrow> string list \<Rightarrow> string list" where
  "filterLoop tree [] = []"
| "filterLoop tree (cidr # cidrs) =
     (let binaryPrefix = binaryPrefixOf cidr
      in if \<not> RadixTree_search tree binaryPrefix
         then cidr # filterLoop (RadixTree_insert tree binaryPrefix) cidrs
         else filterLoop tree cidrs)"

text \<open>\<open>filterContainedCIDRsRadix\<close>, as a function of the keys of \<open>this.cidrMap\<close> in
  insertion order; the result is the returned \<open>Set\<close> in its iteration order.\<close>

definition filterContainedCIDRsRadix :: "string list \<Rightarrow> string list" where
  "filterContainedCIDRsRadix keys =
     (let tree = newRadixTree;
          cidrs = js_sort compareCidrs keys
      in new_Set (filterLoop tree cidrs))"

section \<open>utils/IpChecker.js and example/index.js\<close>

text \<open>(The class \<open>IpChecker\<close> is src/unnamed/part_000.)\<close>

text \<open>The binary search of \<open>isBlocked\<close>, the same loop in both files. \<open>ranges[mid]\<close>
  outside the array is \<open>undefined\<close>, and destructuring it raises a \<open>TypeError\<close>.\<close>

function isBlocked_loop :: "(number \<times> number) list \<Rightarrow> number \<Rightarrow> int \<Rightarrow> int \<Rightarrow> error + bool" where
  "isBlocked_loop ranges ipNum left right =
     (if left \<le> right then
        (let mid = (left + right) div 2
         in (case (if mid < 0 then None else at ranges (nat mid)) of
               None \<Rightarrow> Inl TypeError
             | Some (start, end) \<Rightarrow>
                 (if js_lt ipNum start then isBlocked_loop ranges ipNum left (mid - 1)
                  else if js_gt ipNum end then isBlocked_loop ranges ipNum (mid + 1) right
                  else Inr True)))
      else Inr False)"
  by pat_completeness auto
termination
proof (relation "measure (\<lambda>(ranges, ipNum, left, right). nat (right - left + 1))")
  show "wf (measure (\<lambda>(ranges, ipNum, left, right). nat (right - left + 1)))" by simp
next
  fix rs :: "(number \<times> number) list" and ip :: number and l r m :: int
  assume "l \<le> r" and "m = (l + r) div 2"
  then show "((rs, ip, l, m - 1), rs, ip, l, r)
               \<in> measure (\<lambda>(ranges, ipNum, left, right). nat (right - left + 1))"
    by simp
next
  fix rs :: "(number \<times> number) list" and ip :: number and l r m :: int
  assume "l \<le> r" and "m = (l + r) div 2"
  then show "((rs, ip, m + 1, r), rs, ip, l, r)
               \<in> measure (\<lambda>(ranges, ipNum, left, right). nat (right - left + 1))"
    by simp
qed

text \<open>\<open>isBlocked(ipNum, ranges)\<close> of example/index.js.\<close>

definition isBlocked :: "number \<Rightarrow> (number \<times> number) list \<Rightarrow> error + bool" where
  "isBlocked ipNum ranges = isBlocked_loop ranges ipNum 0 (int (length ranges) - 1)"

text \<open>The class \<open>IpChecker\<close> with its private fields \<open>#ranges\<close> and \<open>#totalIPs\<close>.\<close>

record IpChecker =
  ranges :: "(number \<times> number) list"
  totalIPs :: number

definition new_IpChecker :: IpChecker where
  "new_IpChecker = \<lparr>ranges = [], totalIPs = Num 0\<rparr>"

text \<open>\<open>load\<close>, as a function of the text \<open>data\<close> read from the file.\<close>

definition load :: "IpChecker \<Rightarrow> string \<Rightarrow> IpChecker" where
  "load checker data =
     (let cidrs = map (\<lambda>line. if str_includes line CHR ''/'' then line else line @ ''/32'')
                    (filter (\<lambda>line. line \<noteq> [])
                       (map trim (str_split CHR 0x0A data)));
          sorted_ranges = js_sort (\<lambda>a b. js_sub (fst a) (fst b)) (map cidrToRange cidrs)
      in checker\<lparr>ranges := sorted_ranges,
                 totalIPs := foldl (\<lambda>acc (start, end). js_add acc (js_add (js_sub end start) (Num 1)))
                               (Num 0) sorted_ranges\<rparr>)"

text \<open>\<open>IpChecker.isBlocked(ip)\<close>: \<open>ip\<close> is a string (\<open>Inl\<close>) or a number (\<open>Inr\<close>).\<close>

definition IpChecker_isBlocked :: "IpChecker \<Rightarrow> string + number \<Rightarrow> error + bool" where
  "IpChecker_isBlocked checker ip =
     (let ipNum = (case ip of Inl s \<Rightarrow> ipToNumber s | Inr n \<Rightarrow> n)
      in isBlocked_loop (ranges checker) ipNum 0 (int (length (ranges checker)) - 1))"

section \<open>Notions used to state the properties\<close>

text \<open>One piece of a dotted address as decimal text: at least one digit, nothing but
  digits, and short enough (15 digits) for its value to be exact in a double.\<close>

definition decimalPiece :: "string \<Rightarrow> bool" where
  "decimalPiece p = (p \<noteq> [] \<and> list_all isDigit p \<and> length p \<le> 15)"

text \<open>The well-formed addresses: exactly four dot-separated decimal octets in 0..255.\<close>

definition validDottedQuad :: "string \<Rightarrow> bool" where
  "validDottedQuad s =
     (let ps = str_split CHR ''.'' s
      in length ps = 4 \<and> list_all (\<lambda>p. decimalPiece p \<and> digitsVal p \<le> 255) ps)"

text \<open>The pieces read as digits in base 256, most significant first.\<close>

definition base256 :: "string list \<Rightarrow> nat" where
  "base256 ps = foldl (\<lambda>acc p. acc * 256 + digitsVal p) 0 ps"

text \<open>The value of a dotted quad as an unsigned 32-bit number.\<close>

definition addressValue :: "string \<Rightarrow> nat" where
  "addressValue s = base256 (str_split CHR ''.'' s)"

text \<open>An octet as decimal text, and the signed reading of 32 bits.\<close>

definition octetPiece :: "string \<Rightarrow> bool" where
  "octetPiece p = (decimalPiece p \<and> digitsVal p \<le> 255)"

definition signed32 :: "nat \<Rightarrow> int" where
  "signed32 n = sint (word_of_nat n :: 32 word)"

text \<open>\<open>cmp(a, b) < 0\<close>: the sort must put \<open>a\<close> before \<open>b\<close>.\<close>

definition goes_before :: "('a \<Rightarrow> 'a \<Rightarrow> number) \<Rightarrow> 'a \<Rightarrow> 'a \<Rightarrow> bool" where
  "goes_before cmp a b = js_lt (cmp a b) (Num 0)"

text \<open>A comparator is consistent on a set when "must go before" is asymmetric and
  its complement is transitive there.\<close>

definition consistent_on :: "('a \<Rightarrow> 'a \<Rightarrow> number) \<Rightarrow> 'a set \<Rightarrow> bool" where
  "consistent_on cmp A =
     ((\<forall>a\<in>A. \<forall>b\<in>A. goes_before cmp a b \<longrightarrow> \<not> goes_before cmp b a) \<and>
      (\<forall>a\<in>A. \<forall>b\<in>A. \<forall>c\<in>A.
          \<not> goes_before cmp a b \<longrightarrow> \<not> goes_before cmp b c \<longrightarrow> \<not> goes_before cmp a c))"

text \<open>An entry whose prefix length, if it has one, reads as a number: every
  \<open>a.b.c.d\<close> and every \<open>a.b.c.d/n\<close> is one.\<close>

definition prefixLengthParses :: "string \<Rightarrow> bool" where
  "prefixLengthParses c =
     (if str_includes c CHR ''/'' then parseInt_opt (at (str_split CHR ''/'' c) 1) \<noteq> NaN
      else True)"

text \<open>The root of a tree holds nothing but members of \<open>P\<close>: its keys are in \<open>P\<close>, and
  it is an end only if the empty prefix is in \<open>P\<close>.\<close>

definition rootWithin :: "RadixTree \<Rightarrow> string set \<Rightarrow> bool" where
  "rootWithin tree P =
     ((if isEnd (root tree) then [] \<in> P else True) \<and> fst ` set (children (root tree)) \<subseteq> P)"

text \<open>Ranges whose bounds are numbers, and an address inside one of them.\<close>

definition numRanges :: "(int \<times> int) list \<Rightarrow> (number \<times> number) list" where
  "numRanges rs = map (\<lambda>(s, e). (Num s, Num e)) rs"

definition hit :: "int \<Rightarrow> int \<times> int \<Rightarrow> bool" where
  "hit a r = (fst r \<le> a \<and> a \<le> snd r)"

text \<open>The byte of a 32-bit word that starts at bit \<open>k\<close>.\<close>

definition byteAt :: "32 word \<Rightarrow> nat \<Rightarrow> nat" where
  "byteAt w k = (unat w div 2 ^ k) mod 256"

text \<open>The two tests of the inner loop of \<open>rangeToCIDRs\<close> for one prefix length: the
  block at \<open>start\<close> is aligned, and it does not reach beyond \<open>end\<close>.\<close>

definition fits :: "int \<Rightarrow> int \<Rightarrow> int \<Rightarrow> bool" where
  "fits start end maxSize =
     (js_and (Num start) (js_ushr (js_not (js_sub (js_pow2 (Num (32 - maxSize))) (Num 1))) 0) = Num start
      \<and> \<not> js_gt (js_sub (js_add (Num start) (js_pow2 (Num (32 - maxSize)))) (Num 1)) (Num end))"

text \<open>A list of ranges that tiles the integers from \<open>s\<close> to \<open>e\<close>: the first starts at
  \<open>s\<close>, each next one starts right after the one before, and the last ends at \<open>e\<close>.\<close>

fun tiles :: "int \<Rightarrow> int \<Rightarrow> (number \<times> number) list \<Rightarrow> bool" where
  "tiles s e [] = (s = e + 1)"
| "tiles s e ((b, f) # rest) =
     (b = Num s \<and> (case f of NaN \<Rightarrow> False | Num f' \<Rightarrow> s \<le> f' \<and> f' \<le> e \<and> tiles (f' + 1) e rest))"

declare insert_node.simps [simp del]
declare search_node.simps [simp del]
declare maxSizeLoop.simps [simp del]
declare cidrLoop.simps [simp del]
declare isBlocked_loop.simps [simp del]
declare natToString.simps [simp del]
declare insertionPoint.simps [simp del]

section \<open>The address parser\<close>

lemma str_split_no_sep: "c \<notin> set p \<Longrightarrow> str_split c p = [p]"
  by (induction p) auto

lemma str_split_append: "c \<notin> set p \<Longrightarrow> str_split c (p @ c # rest) = p # str_split c rest"
  by (induction p) auto

lemma isDigit_not_dot: "isDigit c \<Longrightarrow> c \<noteq> CHR ''.''"
  by (auto simp: isDigit_def)

lemma decimalPiece_no_dot: "decimalPiece p \<Longrightarrow> CHR ''.'' \<notin> set p"
  by (auto simp: decimalPiece_def list_all_iff dest: isDigit_not_dot)

lemma str_split_join_Cons:
  "list_all decimalPiece (p # ps) \<Longrightarrow> str_split CHR ''.'' (join ''.'' (p # ps)) = p # ps"
proof (induction ps arbitrary: p)
  case Nil
  then show ?case by (simp add: str_split_no_sep decimalPiece_no_dot)
next
  case (Cons q qs)
  have "CHR ''.'' \<notin> set p" using Cons.prems by (simp add: decimalPiece_no_dot)
  then have "str_split CHR ''.'' (p @ CHR ''.'' # join ''.'' (q # qs)) = p # str_split CHR ''.'' (join ''.'' (q # qs))"
    by (rule str_split_append)
  moreover have "str_split CHR ''.'' (join ''.'' (q # qs)) = q # qs"
    using Cons.prems by (intro Cons.IH) simp
  ultimately show ?case by simp
qed

lemma str_split_join:
  assumes "ps \<noteq> []" and "list_all decimalPiece ps"
  shows "str_split CHR ''.'' (join ''.'' ps) = ps"
proof -
  obtain q qs where "ps = q # qs" using assms(1) by (cases ps) auto
  then show ?thesis using assms(2) str_split_join_Cons [of q qs] by blast
qed

lemma parseInt_decimal:
  assumes "decimalPiece p"
  shows "parseInt p = Num (int (digitsVal p))"
proof -
  obtain c cs where p: "p = c # cs" and c: "isDigit c" and cs: "list_all isDigit cs"
    using assms by (cases p) (auto simp: decimalPiece_def)
  have ws: "\<not> isWhiteSpace c" using c by (auto simp: isDigit_def isWhiteSpace_def)
  have sg: "c \<noteq> CHR ''-''" "c \<noteq> CHR ''+''" using c by (auto simp: isDigit_def)
  have hx: "\<not> hexPrefix (c # cs)"
  proof (cases cs)
    case Nil
    then show ?thesis by (simp add: hexPrefix_def)
  next
    case (Cons d ds)
    then have "isDigit d" using cs by simp
    then have "d \<noteq> CHR ''x''" "d \<noteq> CHR ''X''" by (auto simp: isDigit_def)
    then show ?thesis using Cons by (simp add: hexPrefix_def)
  qed
  have tw: "takeWhile isDigit (c # cs) = c # cs"
    using c cs by (simp add: list_all_iff takeWhile_eq_all_conv)
  show ?thesis
    using ws sg hx tw by (simp add: parseInt_def p)
qed

lemma fold_step_word:
  "ToInt32 (js_add (js_shl (Num n) 8) (Num (int v)))
     = word_of_int n * 256 + word_of_nat v"
  by (simp add: js_add_def js_shl_def ToInt32_def push_bit_eq_mult mult.commute)

lemma ipToNumber_fold:
  assumes "list_all decimalPiece ps"
  shows "\<exists>n. foldl (\<lambda>acc octet. js_add (js_shl acc 8) (parseInt octet)) (Num 0) ps = Num n
            \<and> (word_of_int n :: 32 word) = word_of_nat (base256 ps)"
  using assms
proof (induction ps rule: rev_induct)
  case Nil
  then show ?case by (simp add: base256_def)
next
  case (snoc p ps)
  then obtain n where n: "foldl (\<lambda>acc octet. js_add (js_shl acc 8) (parseInt octet)) (Num 0) ps = Num n"
    and w: "(word_of_int n :: 32 word) = word_of_nat (base256 ps)" by auto
  have p: "parseInt p = Num (int (digitsVal p))"
    using snoc.prems by (simp add: parseInt_decimal)
  obtain m where m: "js_add (js_shl (Num n) 8) (Num (int (digitsVal p))) = Num m"
    by (simp add: js_add_def js_shl_def)
  have "(word_of_int m :: 32 word) = word_of_int n * 256 + word_of_nat (digitsVal p)"
    using fold_step_word [of n "digitsVal p"] m by (simp add: ToInt32_def)
  also have "\<dots> = word_of_nat (base256 (ps @ [p]))"
    by (simp add: w base256_def)
  finally show ?case using n p m by auto
qed

text \<open>
  Claim C5: the address parser fails on every text that is not exactly four
  dot-separated decimal octets in 0..255. \<open>ipToNumber\<close> has no check at all: three
  pieces, an octet of 256 and a text with no digit each give a value.
\<close>

theorem ipToNumber_returns_on_malformed_input:
  "\<not> validDottedQuad ''1.2.3'' \<and> ipToNumber ''1.2.3'' = Num 66051
   \<and> \<not> validDottedQuad ''1.2.3.256'' \<and> ipToNumber ''1.2.3.256'' = Num 16909312
   \<and> \<not> validDottedQuad ''abc'' \<and> ipToNumber ''abc'' = NaN"
  by code_simp

text \<open>
  Claim C5, as the code has it: \<open>ipToNumber\<close> accepts any number of dot-separated
  decimal pieces of any size and returns a number, which agrees modulo \<open>2^32\<close> with the
  pieces read in base 256. For four octets in 0..255 that is the address.
\<close>

theorem ipToNumber_accepts_any_decimal_pieces:
  assumes "ps \<noteq> []" and "list_all decimalPiece ps"
  shows "\<exists>n. ipToNumber (join ''.'' ps) = Num n \<and> n mod 2 ^ 32 = int (base256 ps) mod 2 ^ 32"
proof -
  obtain n where n: "foldl (\<lambda>acc octet. js_add (js_shl acc 8) (parseInt octet)) (Num 0) ps = Num n"
    and w: "(word_of_int n :: 32 word) = word_of_nat (base256 ps)"
    using ipToNumber_fold [OF assms(2)] by auto
  have "(word_of_int n :: 32 word) = word_of_int (int (base256 ps))"
    using w by simp
  then have "take_bit 32 n = take_bit 32 (int (base256 ps))"
    by (simp only: word_of_int_eq_iff) simp
  then have "n mod 2 ^ 32 = int (base256 ps) mod 2 ^ 32"
    by (simp only: take_bit_eq_mod)
  then show ?thesis
    using n by (simp add: ipToNumber_def str_split_join [OF assms])
qed

theorem ipToNumber_accepts_any_decimal_pieces_witness:
  "[''1'', ''2'', ''3''] \<noteq> [] \<and> list_all decimalPiece [''1'', ''2'', ''3'']
   \<and> (\<exists>n. ipToNumber (join ''.'' [''1'', ''2'', ''3'']) = Num n
          \<and> n mod 2 ^ 32 = int (base256 [''1'', ''2'', ''3'']) mod 2 ^ 32)"
proof -
  have a: "[''1'', ''2'', ''3''] \<noteq> ([] :: string list)" by simp
  have b: "list_all decimalPiece [''1'', ''2'', ''3'']" by code_simp
  from ipToNumber_accepts_any_decimal_pieces [OF a b] a b show ?thesis by blast
qed

text \<open>
  The value of \<open>ipToNumber\<close> on dot-separated octets: the pieces in base 256, read as a
  signed 32-bit number. From 128.0.0.0 on it is negative.
\<close>

lemma shifted_mod: "(x * 256 + 2 ^ 31) mod 2 ^ 32 = 256 * ((x + 2 ^ 23) mod 2 ^ 24)" for x :: int
proof -
  have "(x * 256 + 2 ^ 31) = 256 * (x + 2 ^ 23)" by simp
  moreover have "(2::int) ^ 32 = 256 * 2 ^ 24" by simp
  ultimately show ?thesis by (simp only: mult_mod_right)
qed

lemma sint_add_octet:
  assumes "0 \<le> d" and "d < 256"
  shows "sint (word_of_int (x * 256) :: 32 word) + d = sint (word_of_int (x * 256 + d) :: 32 word)"
proof -
  define y where "y = (x + 2 ^ 23) mod 2 ^ 24"
  have y: "0 \<le> y" "y < 2 ^ 24" by (simp_all add: y_def)
  have a: "(x * 256 + 2 ^ 31) mod 2 ^ 32 = 256 * y"
    by (simp only: shifted_mod y_def)
  have "x * 256 + d + 2 ^ 31 = (x * 256 + 2 ^ 31) + d" by simp
  then have "(x * 256 + d + 2 ^ 31) mod 2 ^ 32 = ((x * 256 + 2 ^ 31) + d) mod 2 ^ 32"
    by (simp only:)
  also have "\<dots> = ((x * 256 + 2 ^ 31) mod 2 ^ 32 + d) mod 2 ^ 32"
    by (simp only: mod_add_left_eq)
  also have "\<dots> = (256 * y + d) mod 2 ^ 32" by (simp only: a)
  also have "\<dots> = 256 * y + d" using y assms by simp
  finally have b: "(x * 256 + d + 2 ^ 31) mod 2 ^ 32 = 256 * y + d" .
  have l: "sint (word_of_int k :: 32 word) = (k + 2 ^ 31) mod 2 ^ 32 - 2 ^ 31" for k
    using int_word_sint [where 'a = 32, of k] by simp
  show ?thesis
    unfolding l a b by simp
qed

lemma js_shl_add_octet:
  assumes "0 \<le> d" and "d < 256"
  shows "js_add (js_shl (Num x) 8) (Num d) = Num (sint (word_of_int (x * 256 + d) :: 32 word))"
proof -
  have "push_bit 8 (word_of_int x :: 32 word) = word_of_int (x * 256)"
    by (simp add: push_bit_eq_mult)
  then show ?thesis
    using sint_add_octet [OF assms, of x]
    by (simp add: js_add_def js_shl_def ToInt32_def)
qed

lemma ipToNumber_fold_octets:
  assumes "list_all octetPiece ps"
  shows "foldl (\<lambda>acc octet. js_add (js_shl acc 8) (parseInt octet)) (Num 0) ps
           = Num (signed32 (base256 ps))"
  using assms
proof (induction ps rule: rev_induct)
  case Nil
  then show ?case by (simp add: base256_def signed32_def)
next
  case (snoc p ps)
  then have ih: "foldl (\<lambda>acc octet. js_add (js_shl acc 8) (parseInt octet)) (Num 0) ps
                   = Num (signed32 (base256 ps))"
    and p: "decimalPiece p" "digitsVal p \<le> 255"
    by (simp_all add: octetPiece_def)
  have "js_add (js_shl (Num (signed32 (base256 ps))) 8) (Num (int (digitsVal p)))
          = Num (sint (word_of_int (signed32 (base256 ps) * 256 + int (digitsVal p)) :: 32 word))"
    using p(2) by (intro js_shl_add_octet) simp_all
  also have "(word_of_int (signed32 (base256 ps) * 256 + int (digitsVal p)) :: 32 word)
               = word_of_nat (base256 (ps @ [p]))"
    by (simp add: signed32_def base256_def)
  finally show ?case
    using ih p(1) by (simp add: parseInt_decimal signed32_def)
qed

lemma ipToNumber_octets:
  assumes "ps \<noteq> []" and "list_all octetPiece ps"
  shows "ipToNumber (join ''.'' ps) = Num (signed32 (base256 ps))"
proof -
  have "list_all decimalPiece ps"
    using assms(2) by (simp add: list_all_iff octetPiece_def)
  then have "str_split CHR ''.'' (join ''.'' ps) = ps"
    using assms(1) by (intro str_split_join)
  then show ?thesis
    using ipToNumber_fold_octets [OF assms(2)] by (simp add: ipToNumber_def)
qed

section \<open>The prefix tree\<close>

text \<open>
  Claim C1: after any sequence of insertions into a fresh tree, \<open>search\<close> is true for
  every inserted prefix and for every string that starts with one, and false for the
  others. Evaluated on the tree built by inserting \<open>00\<close> and then \<open>01\<close>: the second
  insertion splits the edge \<open>00\<close>, and \<open>search\<close> then finds neither of the two inserted
  prefixes.
\<close>

theorem search_misses_inserted_prefix:
  "RadixTree_search (RadixTree_insert (RadixTree_insert newRadixTree ''00'') ''01'') ''00'' = False
   \<and> RadixTree_search (RadixTree_insert (RadixTree_insert newRadixTree ''00'') ''01'') ''01'' = False"
  by code_simp

text \<open>
  Claim C10: in every tree reachable by insertions, each child is stored in its
  parent's map under a key equal to the child's own \<open>value\<close>. Evaluated on the same
  tree: the split rewrites the \<open>value\<close> of the child to the common prefix \<open>0\<close> and
  leaves it in the root's map under the old key \<open>00\<close>.
\<close>

theorem split_leaves_stale_key:
  "root (RadixTree_insert (RadixTree_insert newRadixTree ''00'') ''01'')
     = RadixNode [] [(''00'', RadixNode ''0'' [(''0'', RadixNode ''0'' [] True),
                                                (''1'', RadixNode ''1'' [] True)] False)] False
   \<and> \<not> keysAgree (root (RadixTree_insert (RadixTree_insert newRadixTree ''00'') ''01''))"
  by code_simp

text \<open>What a search that answers "true" has seen at the root.\<close>

lemma search_node_true:
  assumes "search_node node s"
  shows "isEnd node \<or> (\<exists>(key, child)\<in>set (children node). startsWith s key)"
proof (cases "s = [] \<or> firstStarting s (children node) = None")
  case True
  then have "isEnd node"
    using assms by (subst (asm) search_node.simps) (auto split: if_splits)
  then show ?thesis by simp
next
  case False
  then obtain key child where kc: "firstStarting s (children node) = Some (key, child)"
    by auto
  then have "startsWith s key \<and> (key, child) \<in> set (children node)"
    by (rule firstStarting_Some)
  then show ?thesis by auto
qed

lemma keys_map_set: "fst ` set (map_set m k v) = Set.insert k (fst ` set m)"
proof (induction m)
  case Nil
  then show ?case by simp
next
  case (Cons e m)
  obtain k' v' where e: "e = (k', v')" by (cases e)
  show ?case
  proof (cases "k' = k")
    case True
    then show ?thesis by (simp add: e)
  next
    case False
    then show ?thesis using Cons.IH by (simp add: e insert_commute)
  qed
qed

text \<open>The three ways through one round of the loop of \<open>insert\<close>.\<close>

lemma insert_node_Nil: "insert_node node [] = RadixNode (val node) (children node) True"
  by (subst insert_node.simps) simp

lemma insert_node_None:
  "p \<noteq> [] \<Longrightarrow> firstCommon p (children node) = None \<Longrightarrow>
     insert_node node p =
       RadixNode (val node) (map_set (children node) p (RadixNode p [] True)) (isEnd node)"
  by (subst insert_node.simps) simp

lemma insert_node_Some:
  "p \<noteq> [] \<Longrightarrow> firstCommon p (children node) = Some (key, child) \<Longrightarrow>
     \<exists>child'. insert_node node p =
       RadixNode (val node) (map_set (children node) key child') (isEnd node)"
  by (subst insert_node.simps) (auto simp: Let_def)

text \<open>The keys at the root and the root's flag after an insertion.\<close>

lemma root_keys_insert_node:
  "fst ` set (children (insert_node node p)) \<subseteq> Set.insert p (fst ` set (children node))"
proof (cases "p = []")
  case True
  then show ?thesis by (auto simp: insert_node_Nil)
next
  case False
  show ?thesis
  proof (cases "firstCommon p (children node)")
    case None
    with False show ?thesis
      by (simp add: insert_node_None keys_map_set)
  next
    case (Some kc)
    obtain key child where kc: "kc = (key, child)" by (cases kc)
    have "(key, child) \<in> set (children node)"
      using firstCommon_Some [of p "children node" key child] Some kc by simp
    then have "key \<in> fst ` set (children node)" by force
    moreover obtain child' where
      "insert_node node p = RadixNode (val node) (map_set (children node) key child') (isEnd node)"
      using insert_node_Some [OF False, of node key child] Some kc by auto
    ultimately show ?thesis
      by (auto simp: keys_map_set)
  qed
qed

lemma root_isEnd_insert_node:
  assumes "isEnd (insert_node node p)"
  shows "isEnd node \<or> p = []"
proof (cases "p = []")
  case True
  then show ?thesis by simp
next
  case False
  show ?thesis
  proof (cases "firstCommon p (children node)")
    case None
    with False assms show ?thesis by (simp add: insert_node_None)
  next
    case (Some kc)
    obtain key child where kc: "kc = (key, child)" by (cases kc)
    obtain child' where
      "insert_node node p = RadixNode (val node) (map_set (children node) key child') (isEnd node)"
      using insert_node_Some [OF False, of node key child] Some kc by auto
    with assms show ?thesis by simp
  qed
qed

lemma rootWithin_new: "rootWithin newRadixTree P"
  by (simp add: rootWithin_def newRadixTree_def newRadixNode_def)

lemma rootWithin_insert:
  assumes "rootWithin tree P"
  shows "rootWithin (RadixTree_insert tree p) (Set.insert p P)"
proof -
  have "fst ` set (children (insert_node (root tree) p)) \<subseteq> Set.insert p P"
    using root_keys_insert_node [of "root tree" p] assms by (auto simp: rootWithin_def)
  moreover have "[] \<in> Set.insert p P" if "isEnd (insert_node (root tree) p)"
    using root_isEnd_insert_node [OF that] assms by (auto simp: rootWithin_def split: if_splits)
  ultimately show ?thesis by (simp add: rootWithin_def RadixTree_insert_def)
qed

lemma rootWithin_search:
  assumes "rootWithin tree P" and "RadixTree_search tree s"
  shows "\<exists>p\<in>P. startsWith s p"
proof -
  from search_node_true [of "root tree" s] assms(2)
  consider "isEnd (root tree)" | key child where "(key, child) \<in> set (children (root tree))" "startsWith s key"
    by (auto simp: RadixTree_search_def)
  then show ?thesis
  proof cases
    case 1
    then have "[] \<in> P" using assms(1) by (simp add: rootWithin_def)
    moreover have "startsWith s []" by (simp add: startsWith_def)
    ultimately show ?thesis by blast
  next
    case 2
    then have "key \<in> P" using assms(1) by (force simp: rootWithin_def)
    with 2 show ?thesis by blast
  qed
qed

lemma rootWithin_foldl:
  "rootWithin tree P \<Longrightarrow> rootWithin (foldl RadixTree_insert tree ps) (P \<union> set ps)"
proof (induction ps arbitrary: tree P)
  case Nil
  then show ?case by simp
next
  case (Cons p ps)
  from Cons.IH [OF rootWithin_insert [OF Cons.prems, of p]] show ?case by simp
qed

text \<open>
  What does hold of \<open>search\<close> after any insertions into a fresh tree: it answers true
  only for a string that starts with an inserted prefix. The keys at the root are inserted
  prefixes, since a split never changes a key.
\<close>

lemma search_true_only_below_inserted_prefix:
  assumes "RadixTree_search (foldl RadixTree_insert newRadixTree ps) s"
  shows "\<exists>p\<in>set ps. startsWith s p"
proof -
  have "rootWithin (foldl RadixTree_insert newRadixTree ps) ({} \<union> set ps)"
    using rootWithin_new by (rule rootWithin_foldl)
  then show ?thesis
    using assms rootWithin_search by blast
qed

section \<open>The range decomposer\<close>

text \<open>
  Claim C2: for every pair of addresses with \<open>start \<le> end\<close> as unsigned 32-bit values,
  \<open>rangeToCIDRs\<close> returns disjoint blocks whose union is the range. Evaluated on the
  range from 127.255.255.255 to 128.0.0.0, two well-formed addresses with the values
  2147483647 and 2147483648: \<open>ipToNumber\<close> gives the signed reading of the 32 bits,
  the guard \<open>start > end\<close> compares those, and the call raises.
\<close>

theorem rangeToCIDRs_raises_across_sign_bit:
  "(addressValue ''127.255.255.255'' = 2147483647 \<and> addressValue ''128.0.0.0'' = 2147483648)
   \<and> validDottedQuad ''127.255.255.255'' \<and> validDottedQuad ''128.0.0.0''
   \<and> ipToNumber ''127.255.255.255'' = Num 2147483647
   \<and> ipToNumber ''128.0.0.0'' = Num (- 2147483648)
   \<and> rangeToCIDRs ''127.255.255.255'' ''128.0.0.0'' = Inl InvalidRange"
proof (rule conjI)
  show "addressValue ''127.255.255.255'' = 2147483647 \<and> addressValue ''128.0.0.0'' = 2147483648"
    by (simp add: addressValue_def base256_def digitsVal_def digitVal_def)
  show "validDottedQuad ''127.255.255.255'' \<and> validDottedQuad ''128.0.0.0''
   \<and> ipToNumber ''127.255.255.255'' = Num 2147483647
   \<and> ipToNumber ''128.0.0.0'' = Num (- 2147483648)
   \<and> rangeToCIDRs ''127.255.255.255'' ''128.0.0.0'' = Inl InvalidRange"
    by code_simp
qed

text \<open>
  Claim C6: \<open>rangeToCIDRs\<close> raises exactly when \<open>start > end\<close> as unsigned 32-bit
  values. Evaluated on the addresses 1.0.0.0 (value 16777216) and 128.0.0.0 (value
  2147483648): from the lower to the higher it raises, and from the higher to the lower
  it returns three blocks.
\<close>

theorem rangeToCIDRs_guard_is_signed:
  "(addressValue ''1.0.0.0'' = 16777216 \<and> addressValue ''128.0.0.0'' = 2147483648)
   \<and> validDottedQuad ''1.0.0.0'' \<and> validDottedQuad ''128.0.0.0''
   \<and> rangeToCIDRs ''1.0.0.0'' ''128.0.0.0'' = Inl InvalidRange
   \<and> rangeToCIDRs ''128.0.0.0'' ''1.0.0.0''
         = Inr [''128.0.0.0/1'', ''0.0.0.0/8'', ''1.0.0.0/32'']"
proof (rule conjI)
  show "addressValue ''1.0.0.0'' = 16777216 \<and> addressValue ''128.0.0.0'' = 2147483648"
    by (simp add: addressValue_def base256_def digitsVal_def digitVal_def)
  show "validDottedQuad ''1.0.0.0'' \<and> validDottedQuad ''128.0.0.0''
   \<and> rangeToCIDRs ''1.0.0.0'' ''128.0.0.0'' = Inl InvalidRange
   \<and> rangeToCIDRs ''128.0.0.0'' ''1.0.0.0''
         = Inr [''128.0.0.0/1'', ''0.0.0.0/8'', ''1.0.0.0/32'']"
    by code_simp
qed

text \<open>
  Claim C7: for every pair with \<open>start \<le> end\<close> the output of \<open>rangeToCIDRs\<close> is a minimal
  cover of at most 64 blocks, each block the largest aligned one that fits. Evaluated
  on the whole address space, from 0.0.0.0 (value 0) to 255.255.255.255 (value
  4294967295), whose minimal cover is the single block 0.0.0.0/0: the call raises and
  produces no list.
\<close>

theorem rangeToCIDRs_whole_space_raises:
  "(addressValue ''0.0.0.0'' = 0 \<and> addressValue ''255.255.255.255'' = 4294967295)
   \<and> validDottedQuad ''0.0.0.0'' \<and> validDottedQuad ''255.255.255.255''
   \<and> ipToNumber ''255.255.255.255'' = Num (- 1)
   \<and> rangeToCIDRs ''0.0.0.0'' ''255.255.255.255'' = Inl InvalidRange"
proof (rule conjI)
  show "addressValue ''0.0.0.0'' = 0 \<and> addressValue ''255.255.255.255'' = 4294967295"
    by (simp add: addressValue_def base256_def digitsVal_def digitVal_def)
  show "validDottedQuad ''0.0.0.0'' \<and> validDottedQuad ''255.255.255.255''
   \<and> ipToNumber ''255.255.255.255'' = Num (- 1)
   \<and> rangeToCIDRs ''0.0.0.0'' ''255.255.255.255'' = Inl InvalidRange"
    by code_simp
qed

text \<open>
  The guard of \<open>rangeToCIDRs\<close> on dotted quads: it raises exactly when the signed
  readings of the two addresses are out of order.
\<close>

lemma rangeToCIDRs_raises_iff:
  assumes "ps \<noteq> []" "list_all octetPiece ps" "qs \<noteq> []" "list_all octetPiece qs"
  shows "rangeToCIDRs (join ''.'' ps) (join ''.'' qs) = Inl InvalidRange
           \<longleftrightarrow> signed32 (base256 qs) < signed32 (base256 ps)"
  using assms
  by (simp add: rangeToCIDRs_def ipToNumber_octets js_gt_def js_lt_def Let_def)

text \<open>
  The inner loop stops at 0 at the latest, and the prefix length pushed is one more
  than its result: a block of prefix length 0 is never produced.
\<close>

lemma maxSizeLoop_nonneg: "0 \<le> maxSize \<Longrightarrow> 0 \<le> maxSizeLoop start end maxSize"
proof (induction start "end" maxSize rule: maxSizeLoop.induct)
  case (1 s e m)
  show ?case
  proof (cases "0 < m")
    case False
    then show ?thesis using "1.prems" by (subst maxSizeLoop.simps) simp
  next
    case True
    define mask where "mask = js_ushr (js_not (js_sub (js_pow2 (Num (32 - m))) (Num 1))) 0"
    define broadcast where "broadcast = js_sub (js_add (Num s) (js_pow2 (Num (32 - m)))) (Num 1)"
    show ?thesis
    proof (cases "js_and (Num s) mask \<noteq> Num s \<or> js_gt broadcast (Num e)")
      case stop: True
      then have "maxSizeLoop s e m = m"
        using True by (subst maxSizeLoop.simps) (auto simp: Let_def mask_def broadcast_def)
      then show ?thesis using "1.prems" by simp
    next
      case go: False
      then have "maxSizeLoop s e m = maxSizeLoop s e (m - 1)"
        using True by (subst maxSizeLoop.simps) (auto simp: Let_def mask_def broadcast_def)
      moreover have "0 \<le> maxSizeLoop s e (m - 1)"
        using True go by (intro "1.IH" [of mask "js_and (Num s) mask" broadcast]) (auto simp: mask_def broadcast_def)
      ultimately show ?thesis by simp
    qed
  qed
qed

lemma prefix_length_never_zero: "1 \<le> maxSizeLoop start end 32 + 1"
  using maxSizeLoop_nonneg [of 32 start "end"] by simp

text \<open>
  What the decomposer does get right. The rest of this section shows that, whenever the
  guard lets a pair of dotted quads pass, the blocks that \<open>rangeToCIDRs\<close> returns, read
  back by \<open>cidrToRange\<close>, tile the range between the two signed readings: no gap, no
  overlap, nothing outside. For two addresses below 128.0.0.0 these readings are the
  addresses themselves.
\<close>

text \<open>Printing a number in decimal and reading it back.\<close>

lemma digitChar_isDigit: "d < 10 \<Longrightarrow> isDigit (digitChar d)"
  by (simp add: isDigit_def digitChar_def)

lemma digitVal_digitChar: "d < 10 \<Longrightarrow> digitVal (digitChar d) = d"
  by (simp add: digitVal_def digitChar_def)

lemma natToString_10_digits: "list_all isDigit (natToString 10 n)"
proof (induction "10::nat" n rule: natToString.induct)
  case (1 n)
  show ?case
  proof (cases "n < 10")
    case True
    then show ?thesis by (subst natToString.simps) (simp add: digitChar_isDigit)
  next
    case False
    then show ?thesis
      using "1" by (subst natToString.simps) (simp add: digitChar_isDigit)
  qed
qed

lemma natToString_10_nonempty: "natToString 10 n \<noteq> []"
  by (subst natToString.simps) simp

lemma digitsVal_snoc: "digitsVal (ds @ [c]) = digitsVal ds * 10 + digitVal c"
  by (simp add: digitsVal_def)

lemma digitsVal_natToString: "digitsVal (natToString 10 n) = n"
proof (induction "10::nat" n rule: natToString.induct)
  case (1 n)
  show ?case
  proof (cases "n < 10")
    case True
    then show ?thesis
      by (subst natToString.simps) (simp add: digitsVal_def digitVal_digitChar)
  next
    case False
    then have "digitsVal (natToString 10 (n div 10)) = n div 10" using "1" by simp
    then show ?thesis
      using False by (subst natToString.simps) (simp add: digitsVal_snoc digitVal_digitChar)
  qed
qed

lemma natToString_10_length: "n < 1000 \<Longrightarrow> length (natToString 10 n) \<le> 3"
  by (subst natToString.simps, simp, subst natToString.simps, simp, subst natToString.simps, simp)

lemma octetPiece_natToString: "n \<le> 255 \<Longrightarrow> octetPiece (natToString 10 n)"
  using natToString_10_length [of n]
  by (simp add: octetPiece_def decimalPiece_def natToString_10_digits natToString_10_nonempty
      digitsVal_natToString)

lemma bytes_of_nat:
  fixes u :: nat
  assumes "u < 2 ^ 32"
  shows "((((u div 2 ^ 24) mod 256) * 256 + (u div 2 ^ 16) mod 256) * 256 + (u div 2 ^ 8) mod 256) * 256
           + u mod 256 = u"
proof -
  define a where "a = u div 256"
  define b where "b = a div 256"
  define c where "c = b div 256"
  have u: "u = a * 256 + u mod 256" by (simp add: a_def)
  have a: "a = b * 256 + a mod 256" by (simp add: b_def)
  have b: "b = c * 256 + b mod 256" by (simp add: c_def)
  have c: "c < 256" using assms by (simp add: c_def b_def a_def div_mult2_eq [symmetric])
  have d8: "u div 2 ^ 8 = a" by (simp add: a_def)
  have d16: "u div 2 ^ 16 = b" by (simp add: b_def a_def div_mult2_eq [symmetric])
  have d24: "u div 2 ^ 24 = c" by (simp add: c_def b_def a_def div_mult2_eq [symmetric])
  have "((c mod 256) * 256 + b mod 256) * 256 = b * 256"
    using b c by simp
  then have "(((c mod 256) * 256 + b mod 256) * 256 + a mod 256) * 256 = a * 256"
    using a by simp
  then show ?thesis
    unfolding d8 d16 d24 using u by simp
qed

lemma sint_small: "uint (x :: 32 word) < 2 ^ 31 \<Longrightarrow> sint x = uint x"
proof -
  assume a: "uint x < 2 ^ 31"
  have "sint x = signed_take_bit 31 (uint x)" by (simp add: sint_uint)
  also have "\<dots> = uint x"
  proof (rule signed_take_bit_int_eq_self)
    have "0 \<le> uint x" by simp
    moreover have "- (2 ^ 31) \<le> (0::int)" by simp
    ultimately show "- (2 ^ 31) \<le> uint x" by (rule order_trans [rotated])
    show "uint x < 2 ^ 31" by (rule a)
  qed
  finally show ?thesis .
qed

lemma js_byte:
  "js_and (js_ushr (Num s) k) (Num 255) = Num (int (byteAt (word_of_int s) (k mod 32)))"
proof -
  let ?w = "word_of_int s :: 32 word"
  let ?d = "drop_bit (k mod 32) ?w"
  have m: "(255 :: 32 word) = mask 8" by (simp add: mask_eq_exp_minus_1)
  have "?d AND 255 = take_bit 8 ?d"
    unfolding m by (simp only: take_bit_eq_mask)
  then have "unat (?d AND 255) = unat (take_bit 8 ?d)" by (simp only:)
  also have "\<dots> = take_bit 8 (unat ?d)" by (simp only: unsigned_take_bit_eq)
  also have "\<dots> = take_bit 8 (drop_bit (k mod 32) (unat ?w))" by (simp only: unat_drop_bit_eq)
  also have "\<dots> = byteAt ?w (k mod 32)"
    by (simp only: byteAt_def take_bit_eq_mod drop_bit_eq_div) simp
  finally have u: "unat (?d AND 255) = byteAt ?w (k mod 32)" .
  have "byteAt ?w (k mod 32) < 256" by (simp add: byteAt_def)
  then have "uint (?d AND 255) < 2 ^ 31"
    using u by (simp add: uint_nat)
  then have "sint (?d AND 255) = uint (?d AND 255)" by (rule sint_small)
  then have "sint (?d AND 255) = int (byteAt ?w (k mod 32))"
    using u by (simp add: uint_nat)
  moreover have "ToInt32 (js_ushr (Num s) k) = ?d"
    by (simp add: js_ushr_def ToInt32_def)
  ultimately show ?thesis
    by (simp add: js_and_def ToInt32_def)
qed

lemma js_byte0: "js_and (Num s) (Num 255) = Num (int (byteAt (word_of_int s) 0))"
proof -
  have "js_ushr (Num s) 0 = Num (uint (word_of_int s :: 32 word))"
    by (simp add: js_ushr_def ToInt32_def)
  then have "ToInt32 (js_ushr (Num s) 0) = ToInt32 (Num s)"
    by (simp add: ToInt32_def)
  then have "js_and (Num s) (Num 255) = js_and (js_ushr (Num s) 0) (Num 255)"
    by (simp add: js_and_def)
  then show ?thesis using js_byte [of s 0] by simp
qed

lemma toString_nat: "toString 10 (Num (int n)) = natToString 10 n"
  by (simp add: toString_def)

lemma numberToIp_bytes:
  "numberToIp (Num s) =
     join ''.'' (map (\<lambda>k. natToString 10 (byteAt (word_of_int s) k)) [24, 16, 8, 0])"
  by (simp add: numberToIp_def js_byte js_byte0 toString_nat)

lemma base256_bytes:
  "base256 (map (\<lambda>k. natToString 10 (byteAt w k)) [24, 16, 8, 0]) = unat w"
proof -
  define b where "b k = byteAt w k" for k
  have lt: "unat w < 2 ^ 32" using unsigned_less [of w] by simp
  have b0: "b 0 = unat w mod 256" by (simp add: b_def byteAt_def)
  have "base256 (map (\<lambda>k. natToString 10 (b k)) [24, 16, 8, 0])
          = ((b 24 * 256 + b 16) * 256 + b 8) * 256 + b 0"
    by (simp add: base256_def digitsVal_natToString)
  also have "\<dots> = ((((unat w div 2 ^ 24) mod 256) * 256 + (unat w div 2 ^ 16) mod 256) * 256
                      + (unat w div 2 ^ 8) mod 256) * 256 + unat w mod 256"
    unfolding b0 by (simp only: b_def byteAt_def)
  also have "\<dots> = unat w" using lt by (rule bytes_of_nat)
  finally show ?thesis by (simp only: b_def)
qed

lemma octet_bytes:
  "list_all octetPiece (map (\<lambda>k. natToString 10 (byteAt w k)) [24, 16, 8, 0])"
  by (simp add: octetPiece_natToString byteAt_def less_imp_le [OF less_le_trans [OF mod_less_divisor]])

lemma ipToNumber_numberToIp:
  assumes "- (2 ^ 31) \<le> s" and "s < 2 ^ 31"
  shows "ipToNumber (numberToIp (Num s)) = Num s"
proof -
  let ?ps = "map (\<lambda>k. natToString 10 (byteAt (word_of_int s :: 32 word) k)) [24, 16, 8, 0]"
  have "ipToNumber (join ''.'' ?ps) = Num (signed32 (base256 ?ps))"
    by (intro ipToNumber_octets octet_bytes) simp
  also have "signed32 (base256 ?ps) = sint (word_of_int s :: 32 word)"
    by (simp only: base256_bytes signed32_def) simp
  also have "\<dots> = s"
    using assms by (simp add: sint_sbintrunc' signed_take_bit_int_eq_self)
  finally show ?thesis by (simp only: numberToIp_bytes)
qed

lemma maxSizeLoop_step:
  "maxSizeLoop s e m =
     (if 0 < m then (if fits s e m then maxSizeLoop s e (m - 1) else m) else m)"
  by (subst maxSizeLoop.simps) (auto simp: fits_def Let_def)

lemma maxSizeLoop_fits:
  assumes "m \<le> 32" and "if m < 32 then fits s e (m + 1) else True"
  shows "maxSizeLoop s e m \<le> m \<and> (if maxSizeLoop s e m < 32 then fits s e (maxSizeLoop s e m + 1) else True)"
  using assms
proof (induction s e m rule: maxSizeLoop.induct)
  case (1 s e m)
  show ?case
  proof (cases "0 < m \<and> fits s e m")
    case False
    then have "maxSizeLoop s e m = m" by (subst maxSizeLoop_step) auto
    then show ?thesis using "1.prems" by simp
  next
    case True
    then have eq: "maxSizeLoop s e m = maxSizeLoop s e (m - 1)"
      by (subst maxSizeLoop_step) auto
    have "maxSizeLoop s e (m - 1) \<le> m - 1 \<and>
          (if maxSizeLoop s e (m - 1) < 32 then fits s e (maxSizeLoop s e (m - 1) + 1) else True)"
    proof (rule "1.IH")
      show "0 < m" using True by simp
      show "js_ushr (js_not (js_sub (js_pow2 (Num (32 - m))) (Num 1))) 0
              = js_ushr (js_not (js_sub (js_pow2 (Num (32 - m))) (Num 1))) 0" by (rule refl)
      show "js_and (Num s) (js_ushr (js_not (js_sub (js_pow2 (Num (32 - m))) (Num 1))) 0)
              = js_and (Num s) (js_ushr (js_not (js_sub (js_pow2 (Num (32 - m))) (Num 1))) 0)" by (rule refl)
      show "\<not> js_and (Num s) (js_ushr (js_not (js_sub (js_pow2 (Num (32 - m))) (Num 1))) 0) \<noteq> Num s"
        using True by (simp add: fits_def)
      show "js_sub (js_add (Num s) (js_pow2 (Num (32 - m)))) (Num 1)
              = js_sub (js_add (Num s) (js_pow2 (Num (32 - m)))) (Num 1)" by (rule refl)
      show "\<not> js_gt (js_sub (js_add (Num s) (js_pow2 (Num (32 - m)))) (Num 1)) (Num e)"
        using True by (simp add: fits_def)
      show "m - 1 \<le> 32" using "1.prems" by simp
      show "if m - 1 < 32 then fits s e (m - 1 + 1) else True" using True by simp
    qed
    then show ?thesis unfolding eq by auto
  qed
qed

lemma fits_32:
  assumes "- (2 ^ 31) \<le> s" and "s < 2 ^ 31" and "s \<le> e"
  shows "fits s e 32"
proof -
  have "sint (word_of_int s :: 32 word) = s"
    using assms by (simp add: sint_sbintrunc' signed_take_bit_int_eq_self)
  then show ?thesis
    using assms(3)
    by (simp add: fits_def js_and_def js_ushr_def js_not_def js_sub_def js_add_def js_pow2_def
        js_gt_def js_lt_def ToInt32_def)
qed

lemma prefix_length_fits:
  assumes "- (2 ^ 31) \<le> s" and "s < 2 ^ 31" and "s \<le> e"
  shows "1 \<le> maxSizeLoop s e 32 + 1 \<and> maxSizeLoop s e 32 + 1 \<le> 32
         \<and> fits s e (maxSizeLoop s e 32 + 1)"
proof -
  have f: "fits s e 32" using assms by (rule fits_32)
  then have eq: "maxSizeLoop s e 32 = maxSizeLoop s e 31"
    by (subst maxSizeLoop_step) simp
  have "maxSizeLoop s e 31 \<le> 31 \<and>
        (if maxSizeLoop s e 31 < 32 then fits s e (maxSizeLoop s e 31 + 1) else True)"
    using f by (intro maxSizeLoop_fits) simp_all
  moreover have "0 \<le> maxSizeLoop s e 31" by (rule maxSizeLoop_nonneg) simp
  ultimately show ?thesis unfolding eq by auto
qed


text \<open>The range that \<open>cidrToRange\<close> reads from a block written by the loop.\<close>

lemma isDigit_not_slash: "isDigit c \<Longrightarrow> c \<noteq> CHR ''/''"
  by (auto simp: isDigit_def)

lemma natToString_no_slash: "CHR ''/'' \<notin> set (natToString 10 n)"
  using natToString_10_digits [of n] by (auto simp: list_all_iff dest: isDigit_not_slash)

lemma numberToIp_no_slash: "CHR ''/'' \<notin> set (numberToIp (Num s))"
  by (simp add: numberToIp_bytes natToString_no_slash)

lemma split_block:
  "str_split CHR ''/'' (numberToIp (Num s) @ ''/'' @ natToString 10 n)
     = [numberToIp (Num s), natToString 10 n]"
  using str_split_append [of "CHR ''/''" "numberToIp (Num s)" "natToString 10 n"]
  by (simp add: numberToIp_no_slash str_split_no_sep natToString_no_slash)

lemma isDigit_not_space: "isDigit c \<Longrightarrow> \<not> isWhiteSpace c"
  by (auto simp: isDigit_def isWhiteSpace_def)

lemma trim_digits: "list_all isDigit ds \<Longrightarrow> trim ds = ds"
proof -
  assume a: "list_all isDigit ds"
  have d: "dropWhile isWhiteSpace xs = xs" if "list_all isDigit xs" for xs
    using that by (cases xs) (auto dest: isDigit_not_space)
  have "list_all isDigit (rev ds)" using a by (simp add: list_all_iff)
  then show ?thesis using a by (simp add: trim_def d)
qed

lemma Number_natToString: "Number (Some (natToString 10 n)) = Num (int n)"
proof -
  let ?ds = "natToString 10 n"
  have dg: "list_all isDigit ?ds" by (rule natToString_10_digits)
  have ne: "?ds \<noteq> []" by (rule natToString_10_nonempty)
  obtain c cs where cs: "?ds = c # cs" using ne by (cases ?ds) auto
  then have "isDigit c" using dg by simp
  then have "c \<noteq> CHR ''-''" "c \<noteq> CHR ''+''" by (auto simp: isDigit_def)
  then have rs: "readSign ?ds = (1, ?ds)" by (simp add: cs)
  show ?thesis
    using dg ne by (simp add: Number_def trim_digits rs digitsVal_natToString)
qed

lemma cidrToRange_block:
  assumes "- (2 ^ 31) \<le> s" and "s < 2 ^ 31" and "1 \<le> n" and "n \<le> 32" and "fits s e n"
  shows "cidrToRange (numberToIp (Num s) @ ''/'' @ toString 10 (Num n))
           = (Num s, Num (s + 2 ^ nat (32 - n) - 1))"
proof -
  have ts: "toString 10 (Num n) = natToString 10 (nat n)"
    using assms(3) by (simp add: toString_def)
  have nn: "Number (Some (natToString 10 (nat n))) = Num n"
    using assms(3) by (simp add: Number_natToString)
  have ip: "ipToNumber (numberToIp (Num s)) = Num s"
    using assms(1,2) by (rule ipToNumber_numberToIp)
  have "ToInt32 (js_ushr (js_not (js_sub (js_pow2 (Num (32 - n))) (Num 1))) 0)
          = ToInt32 (js_not (js_sub (js_pow2 (Num (32 - n))) (Num 1)))"
    by (simp add: js_ushr_def js_not_def ToInt32_def)
  then have "js_and (Num s) (js_not (js_sub (js_pow2 (Num (32 - n))) (Num 1)))
          = js_and (Num s) (js_ushr (js_not (js_sub (js_pow2 (Num (32 - n))) (Num 1))) 0)"
    by (simp add: js_and_def)
  also have "\<dots> = Num s" using assms(5) by (simp add: fits_def)
  finally have al: "js_and (Num s) (js_not (js_sub (js_pow2 (Num (32 - n))) (Num 1))) = Num s" .
  have p1: "at [numberToIp (Num s), natToString 10 (nat n)] 1 = Some (natToString 10 (nat n))"
    by simp
  have mb: "js_sub (Num 32) (Num n) = Num (32 - n)" by (simp add: js_sub_def)
  have en: "js_sub (js_add (Num s) (js_pow2 (Num (32 - n)))) (Num 1) = Num (s + 2 ^ nat (32 - n) - 1)"
    by (simp add: js_sub_def js_add_def js_pow2_def)
  show ?thesis
    by (simp only: cidrToRange_def ts split_block Let_def list.sel p1 nn ip mb al en)
qed

lemma cidrLoop_tiles:
  assumes "- (2 ^ 31) \<le> s" and "e < 2 ^ 31"
  shows "s \<le> e + 1 \<Longrightarrow> tiles s e (map cidrToRange (cidrLoop s e))"
  using assms
proof (induction s e rule: cidrLoop.induct)
  case (1 s e)
  show ?case
  proof (cases "s \<le> e")
    case False
    then have "s = e + 1" using "1.prems" by simp
    moreover have "cidrLoop s e = []" using False by (subst cidrLoop.simps) simp
    ultimately show ?thesis by simp
  next
    case True
    define n where "n = maxSizeLoop s e 32 + 1"
    have s31: "s < 2 ^ 31" using True "1.prems" by simp
    have n: "1 \<le> n" "n \<le> 32" "fits s e n"
      using prefix_length_fits [OF "1.prems"(2) s31 True] by (simp_all add: n_def)
    define f where "f = s + 2 ^ nat (32 - n) - 1"
    have fe: "f \<le> e"
      using n(3) by (simp add: fits_def f_def js_gt_def js_lt_def js_sub_def js_add_def js_pow2_def)
    have sf: "s \<le> f" by (simp add: f_def)
    have unfold: "cidrLoop s e
        = (numberToIp (Num s) @ ''/'' @ toString 10 (Num n)) # cidrLoop (f + 1) e"
      using True by (subst cidrLoop.simps) (simp add: Let_def n_def f_def)
    have block: "cidrToRange (numberToIp (Num s) @ ''/'' @ toString 10 (Num n)) = (Num s, Num f)"
      unfolding f_def using "1.prems"(2) s31 n by (rule cidrToRange_block)
    have "tiles (s + 2 ^ nat (32 - n)) e (map cidrToRange (cidrLoop (s + 2 ^ nat (32 - n)) e))"
    proof (rule "1.IH" [OF True])
      show "n = maxSizeLoop s e 32 + 1" by (rule n_def)
      show "s + 2 ^ nat (32 - n) \<le> e + 1" using fe by (simp add: f_def)
      have "(0::int) \<le> 2 ^ nat (32 - n)" by simp
      then show "- (2 ^ 31) \<le> s + 2 ^ nat (32 - n)" using "1.prems"(2) by linarith
      show "e < 2 ^ 31" by (rule "1.prems"(3))
    qed
    then have "tiles (f + 1) e (map cidrToRange (cidrLoop (f + 1) e))"
      by (simp add: f_def)
    then show ?thesis
      unfolding unfold using block sf fe by simp
  qed
qed

lemma signed32_range: "- (2 ^ 31) \<le> signed32 n \<and> signed32 n < 2 ^ 31"
  using sint_ge [of "word_of_nat n :: 32 word"] sint_lt [of "word_of_nat n :: 32 word"]
  by (simp add: signed32_def)

lemma signed32_low: "n < 2 ^ 31 \<Longrightarrow> signed32 n = int n"
proof -
  assume a: "n < 2 ^ 31"
  have "(word_of_nat n :: 32 word) = word_of_int (int n)" by simp
  then have "signed32 n = sint (word_of_int (int n) :: 32 word)" by (simp only: signed32_def)
  also have "\<dots> = signed_take_bit 31 (int n)"
    using sint_sbintrunc' [where 'a = 32, of "int n"] by (simp del: of_int_of_nat_eq)
  also have "\<dots> = int n"
  proof (rule signed_take_bit_int_eq_self)
    have "(0::int) \<le> int n" by simp
    moreover have "- (2 ^ 31) \<le> (0::int)" by simp
    ultimately show "- (2 ^ 31) \<le> int n" by (rule order_trans [rotated])
    have "int n < int (2 ^ 31)" using a by (simp only: of_nat_less_iff)
    then show "int n < 2 ^ 31" by simp
  qed
  finally show ?thesis .
qed

lemma rangeToCIDRs_tiles:
  assumes "ps \<noteq> []" "list_all octetPiece ps" "qs \<noteq> []" "list_all octetPiece qs"
    and "signed32 (base256 ps) \<le> signed32 (base256 qs)"
  shows "\<exists>cs. rangeToCIDRs (join ''.'' ps) (join ''.'' qs) = Inr cs
            \<and> tiles (signed32 (base256 ps)) (signed32 (base256 qs)) (map cidrToRange cs)"
proof -
  let ?s = "signed32 (base256 ps)" and ?e = "signed32 (base256 qs)"
  have "rangeToCIDRs (join ''.'' ps) (join ''.'' qs) = Inr (cidrLoop ?s ?e)"
    using assms by (simp add: rangeToCIDRs_def ipToNumber_octets js_gt_def js_lt_def Let_def)
  moreover have "tiles ?s ?e (map cidrToRange (cidrLoop ?s ?e))"
    using signed32_range [of "base256 ps"] signed32_range [of "base256 qs"] assms(5)
    by (intro cidrLoop_tiles) simp_all
  ultimately show ?thesis by simp
qed

lemma rangeToCIDRs_tiles_low_half:
  assumes "ps \<noteq> []" "list_all octetPiece ps" "qs \<noteq> []" "list_all octetPiece qs"
    and "base256 ps \<le> base256 qs" and "base256 qs < 2 ^ 31"
  shows "\<exists>cs. rangeToCIDRs (join ''.'' ps) (join ''.'' qs) = Inr cs
            \<and> tiles (int (base256 ps)) (int (base256 qs)) (map cidrToRange cs)"
proof -
  have "signed32 (base256 ps) = int (base256 ps)" "signed32 (base256 qs) = int (base256 qs)"
    using assms(5,6) by (simp_all add: signed32_low)
  then show ?thesis
    using rangeToCIDRs_tiles [OF assms(1-4)] assms(5) by simp
qed

section \<open>The deduplicator\<close>

text \<open>
  Claim C3: the result of \<open>filterContainedCIDRsRadix\<close> has no entry whose range lies
  inside the range of another entry of the result. Evaluated on two sibling /24 blocks
  and an address inside the second one: the address 10.0.1.5 is kept although
  10.0.1.0/24 is kept too, whose range and whose binary prefix contain it.
\<close>

theorem filter_keeps_contained_entry:
  "filterContainedCIDRsRadix [''10.0.0.0/24'', ''10.0.1.0/24'', ''10.0.1.5'']
     = [''10.0.0.0/24'', ''10.0.1.0/24'', ''10.0.1.5'']
   \<and> cidrToRange ''10.0.1.0/24'' = (Num 167772416, Num 167772671)
   \<and> cidrToRange ''10.0.1.5/32'' = (Num 167772421, Num 167772421)
   \<and> startsWith (binaryPrefixOf ''10.0.1.5'') (binaryPrefixOf ''10.0.1.0/24'')"
  by code_simp

text \<open>The sort returns a rearrangement of its input.\<close>

lemma extendRun_append:
  "fst (extendRun cmp d p xs) @ snd (extendRun cmp d p xs) = xs"
proof (induction xs arbitrary: p)
  case Nil
  then show ?case by simp
next
  case (Cons c rest)
  obtain r s where e: "extendRun cmp d c rest = (r, s)" by fastforce
  have "r @ s = rest" using Cons.IH [of c] by (simp add: e)
  then show ?case by (simp add: e Let_def)
qed

lemma countAndMakeRun_extendRun:
  "countAndMakeRun cmp (h # l # rest) =
     (let d = goes_before cmp l h; r = extendRun cmp d h (l # rest)
      in (if d then rev (h # fst r) else h # fst r, snd r))"
  by (simp add: goes_before_def Let_def split: prod.splits)

lemma countAndMakeRun_parts:
  "\<exists>pre. pre @ snd (countAndMakeRun cmp xs) = xs
     \<and> (fst (countAndMakeRun cmp xs) = pre \<or> fst (countAndMakeRun cmp xs) = rev pre)"
proof (cases "(cmp, xs)" rule: countAndMakeRun.cases)
  case (3 c h l rest)
  let ?r = "extendRun cmp (goes_before cmp l h) h (l # rest)"
  let ?c = "countAndMakeRun cmp (h # l # rest)"
  have e: "fst ?r @ snd ?r = l # rest" by (rule extendRun_append)
  have f: "fst ?c = h # fst ?r \<or> fst ?c = rev (h # fst ?r)" and s: "snd ?c = snd ?r"
    by (simp_all add: countAndMakeRun_extendRun Let_def del: countAndMakeRun.simps extendRun.simps)
  have "(h # fst ?r) @ snd ?c = h # l # rest" by (simp only: s append_Cons e)
  with f have "\<exists>pre. pre @ snd ?c = h # l # rest \<and> (fst ?c = pre \<or> fst ?c = rev pre)"
    by blast
  then show ?thesis using 3 by simp
qed simp_all

lemma set_countAndMakeRun:
  "set (fst (countAndMakeRun cmp xs)) \<union> set (snd (countAndMakeRun cmp xs)) = set xs"
proof -
  obtain pre where p: "pre @ snd (countAndMakeRun cmp xs) = xs"
    and f: "fst (countAndMakeRun cmp xs) = pre \<or> fst (countAndMakeRun cmp xs) = rev pre"
    using countAndMakeRun_parts by blast
  have "set (fst (countAndMakeRun cmp xs)) = set pre" using f by auto
  moreover have "set pre \<union> set (snd (countAndMakeRun cmp xs)) = set xs"
    using p set_append by metis
  ultimately show ?thesis by simp
qed

lemma distinct_countAndMakeRun:
  "distinct (fst (countAndMakeRun cmp xs) @ snd (countAndMakeRun cmp xs)) = distinct xs"
proof -
  obtain pre where p: "pre @ snd (countAndMakeRun cmp xs) = xs"
    and f: "fst (countAndMakeRun cmp xs) = pre \<or> fst (countAndMakeRun cmp xs) = rev pre"
    using countAndMakeRun_parts by blast
  have r: "distinct (rev a @ b) = distinct (a @ b)" for a b :: "'a list" by simp
  have "distinct (fst (countAndMakeRun cmp xs) @ snd (countAndMakeRun cmp xs))
          = distinct (pre @ snd (countAndMakeRun cmp xs))"
    using f r by metis
  then show ?thesis by (simp only: p)
qed

lemma set_binaryInsert: "set (binaryInsert cmp xs p) = Set.insert p (set xs)"
proof -
  let ?k = "insertionPoint cmp p xs 0 (length xs)"
  have "set (take ?k xs @ p # drop ?k xs) = Set.insert p (set (take ?k xs @ drop ?k xs))"
    by (simp only: set_append list.set) blast
  then show ?thesis by (simp only: binaryInsert_def Let_def append_take_drop_id)
qed

lemma distinct_binaryInsert: "distinct (binaryInsert cmp xs p) = (p \<notin> set xs \<and> distinct xs)"
proof -
  let ?k = "insertionPoint cmp p xs 0 (length xs)"
  have g: "distinct (a @ p # b) = (p \<notin> set (a @ b) \<and> distinct (a @ b))" for a b :: "'a list"
    by auto
  have "distinct (take ?k xs @ p # drop ?k xs)
          = (p \<notin> set (take ?k xs @ drop ?k xs) \<and> distinct (take ?k xs @ drop ?k xs))"
    by (rule g)
  then show ?thesis by (simp only: binaryInsert_def Let_def append_take_drop_id)
qed

lemma set_foldl_binaryInsert: "set (foldl (binaryInsert cmp) run rest) = set run \<union> set rest"
  by (induction rest arbitrary: run) (auto simp: set_binaryInsert)

lemma distinct_foldl_binaryInsert:
  "distinct (foldl (binaryInsert cmp) run rest) = distinct (run @ rest)"
  by (induction rest arbitrary: run) (auto simp: set_binaryInsert distinct_binaryInsert)

lemma set_js_sort: "set (js_sort cmp xs) = set xs"
  using set_countAndMakeRun [of cmp xs]
  by (simp add: js_sort_def set_foldl_binaryInsert case_prod_beta)

lemma distinct_js_sort: "distinct (js_sort cmp xs) = distinct xs"
  using distinct_countAndMakeRun [of cmp xs]
  by (simp add: js_sort_def distinct_foldl_binaryInsert case_prod_beta)

text \<open>For a consistent comparator the result is sorted, and a sorted array is returned
  as it is: it is one ascending run.\<close>

lemma consistent_on_asym:
  "consistent_on cmp A \<Longrightarrow> a \<in> A \<Longrightarrow> b \<in> A \<Longrightarrow> goes_before cmp a b \<Longrightarrow> \<not> goes_before cmp b a"
  unfolding consistent_on_def by blast

lemma consistent_on_trans:
  "consistent_on cmp A \<Longrightarrow> a \<in> A \<Longrightarrow> b \<in> A \<Longrightarrow> c \<in> A \<Longrightarrow>
     \<not> goes_before cmp a b \<Longrightarrow> \<not> goes_before cmp b c \<Longrightarrow> \<not> goes_before cmp a c"
  unfolding consistent_on_def by blast

lemma goes_before_trans:
  assumes "consistent_on cmp A" and "a \<in> A" and "b \<in> A" and "c \<in> A"
    and "goes_before cmp a b" and "\<not> goes_before cmp c b"
  shows "goes_before cmp a c"
proof (rule ccontr)
  assume "\<not> goes_before cmp a c"
  then have "\<not> goes_before cmp a b"
    using assms(6) by (rule consistent_on_trans [OF assms(1) assms(2) assms(4) assms(3)])
  then show False using assms(5) by simp
qed

lemma set_extendRun: "set (fst (extendRun cmp d p xs)) \<subseteq> set xs"
proof -
  have "set (fst (extendRun cmp d p xs) @ snd (extendRun cmp d p xs)) = set xs"
    by (simp only: extendRun_append)
  then show ?thesis by auto
qed

lemma extendRun_ascending:
  assumes "consistent_on cmp A"
  shows "p \<in> A \<Longrightarrow> set xs \<subseteq> A \<Longrightarrow>
    sorted_wrt (\<lambda>a b. \<not> goes_before cmp b a) (p # fst (extendRun cmp False p xs))"
proof (induction xs arbitrary: p)
  case Nil
  then show ?case by simp
next
  case (Cons c rest)
  have cA: "c \<in> A" and rA: "set rest \<subseteq> A" using Cons.prems(2) by simp_all
  show ?case
  proof (cases "goes_before cmp c p")
    case True
    then show ?thesis by (simp add: goes_before_def)
  next
    case False
    let ?run = "fst (extendRun cmp False c rest)"
    have ih: "sorted_wrt (\<lambda>a b. \<not> goes_before cmp b a) (c # ?run)"
      using cA rA by (rule Cons.IH)
    have "\<not> goes_before cmp y p" if "y \<in> set ?run" for y
    proof -
      have yA: "y \<in> A" using that set_extendRun [of cmp False c rest] rA by auto
      have "\<not> goes_before cmp y c" using ih that by simp
      then show ?thesis
        using False by (rule consistent_on_trans [OF assms yA cA Cons.prems(1)])
    qed
    then have "sorted_wrt (\<lambda>a b. \<not> goes_before cmp b a) (p # c # ?run)"
      using ih False by simp
    moreover have "fst (extendRun cmp False p (c # rest)) = c # ?run"
      using False by (simp add: goes_before_def Let_def split: prod.splits)
    ultimately show ?thesis by simp
  qed
qed

lemma extendRun_descending:
  assumes "consistent_on cmp A"
  shows "p \<in> A \<Longrightarrow> set xs \<subseteq> A \<Longrightarrow>
    sorted_wrt (\<lambda>a b. goes_before cmp b a) (p # fst (extendRun cmp True p xs))"
proof (induction xs arbitrary: p)
  case Nil
  then show ?case by simp
next
  case (Cons c rest)
  have cA: "c \<in> A" and rA: "set rest \<subseteq> A" using Cons.prems(2) by simp_all
  show ?case
  proof (cases "goes_before cmp c p")
    case False
    then show ?thesis by (simp add: goes_before_def)
  next
    case True
    let ?run = "fst (extendRun cmp True c rest)"
    have ih: "sorted_wrt (\<lambda>a b. goes_before cmp b a) (c # ?run)"
      using cA rA by (rule Cons.IH)
    have "goes_before cmp y p" if "y \<in> set ?run" for y
    proof -
      have yA: "y \<in> A" using that set_extendRun [of cmp True c rest] rA by auto
      have yc: "goes_before cmp y c" using ih that by simp
      have "\<not> goes_before cmp p c"
        using assms cA Cons.prems(1) True by (rule consistent_on_asym)
      with yc show ?thesis
        by (rule goes_before_trans [OF assms yA cA Cons.prems(1)])
    qed
    then have "sorted_wrt (\<lambda>a b. goes_before cmp b a) (p # c # ?run)"
      using ih True by simp
    moreover have "fst (extendRun cmp True p (c # rest)) = c # ?run"
      using True by (simp add: goes_before_def Let_def split: prod.splits)
    ultimately show ?thesis by simp
  qed
qed

lemma sorted_countAndMakeRun:
  assumes "consistent_on cmp A" and "set xs \<subseteq> A"
  shows "sorted_wrt (\<lambda>a b. \<not> goes_before cmp b a) (fst (countAndMakeRun cmp xs))"
proof (cases "(cmp, xs)" rule: countAndMakeRun.cases)
  case (3 c h l rest)
  have hA: "h \<in> A" and lA: "set (l # rest) \<subseteq> A" using assms(2) 3 by simp_all
  let ?c = "countAndMakeRun cmp (h # l # rest)"
  show ?thesis
  proof (cases "goes_before cmp l h")
    case False
    let ?r = "extendRun cmp False h (l # rest)"
    have "fst ?c = h # fst ?r"
      using False by (simp add: countAndMakeRun_extendRun Let_def del: countAndMakeRun.simps extendRun.simps)
    moreover have "sorted_wrt (\<lambda>a b. \<not> goes_before cmp b a) (h # fst ?r)"
      using hA lA by (rule extendRun_ascending [OF assms(1)])
    ultimately show ?thesis using 3 by simp
  next
    case True
    let ?r = "extendRun cmp True h (l # rest)"
    have f: "fst ?c = rev (h # fst ?r)"
      using True by (simp add: countAndMakeRun_extendRun Let_def del: countAndMakeRun.simps extendRun.simps)
    have d: "sorted_wrt (\<lambda>a b. goes_before cmp b a) (h # fst ?r)"
      using hA lA by (rule extendRun_descending [OF assms(1)])
    have sub: "set (h # fst ?r) \<subseteq> A"
      using hA lA set_extendRun [of cmp True h "l # rest"] by auto
    have "sorted_wrt (\<lambda>a b. \<not> goes_before cmp a b) (h # fst ?r)"
    proof (rule sorted_wrt_mono_rel [OF _ d])
      fix x y assume "x \<in> set (h # fst ?r)" "y \<in> set (h # fst ?r)" "goes_before cmp y x"
      then show "\<not> goes_before cmp x y"
        using sub consistent_on_asym [OF assms(1), of y x] by blast
    qed
    then have "sorted_wrt (\<lambda>a b. \<not> goes_before cmp b a) (rev (h # fst ?r))"
      by (simp only: sorted_wrt_rev)
    then show ?thesis using f 3 by simp
  qed
qed simp_all

lemma insertionPoint_spec:
  assumes c: "consistent_on cmp A" and pA: "pivot \<in> A" and xA: "set xs \<subseteq> A"
    and s: "sorted_wrt (\<lambda>a b. \<not> goes_before cmp b a) xs"
  shows "left \<le> right \<Longrightarrow> right \<le> length xs \<Longrightarrow>
     (\<forall>i<left. \<not> goes_before cmp pivot (xs ! i)) \<Longrightarrow>
     (\<forall>i. right \<le> i \<and> i < length xs \<longrightarrow> goes_before cmp pivot (xs ! i)) \<Longrightarrow>
     insertionPoint cmp pivot xs left right \<le> length xs
     \<and> (\<forall>i<insertionPoint cmp pivot xs left right. \<not> goes_before cmp pivot (xs ! i))
     \<and> (\<forall>i. insertionPoint cmp pivot xs left right \<le> i \<and> i < length xs \<longrightarrow> goes_before cmp pivot (xs ! i))"
proof (induction "right - left" arbitrary: left right rule: less_induct)
  case less
  show ?case
  proof (cases "left < right")
    case False
    then have e: "insertionPoint cmp pivot xs left right = left"
      by (simp add: insertionPoint.simps)
    have "left = right" using False less.prems(1) by simp
    then show ?thesis using less.prems unfolding e by simp
  next
    case True
    define mid where "mid = left + (right - left) div 2"
    have m: "left \<le> mid" "mid < right" "mid < length xs"
      using True less.prems(2) by (simp_all add: mid_def)
    have mA: "xs ! mid \<in> A" using m(3) xA by auto
    show ?thesis
    proof (cases "goes_before cmp pivot (xs ! mid)")
      case gb: True
      have e: "insertionPoint cmp pivot xs left right = insertionPoint cmp pivot xs left mid"
        using True gb by (subst insertionPoint.simps) (simp add: mid_def goes_before_def Let_def)
      have above: "goes_before cmp pivot (xs ! i)" if "mid \<le> i \<and> i < length xs" for i
      proof (cases "i = mid")
        case True
        then show ?thesis using gb by simp
      next
        case False
        then have "mid < i" "i < length xs" using that by simp_all
        then have "\<not> goes_before cmp (xs ! i) (xs ! mid)"
          using sorted_wrt_nth_less [OF s, of mid i] by simp
        moreover have "xs ! i \<in> A" using \<open>i < length xs\<close> xA by auto
        ultimately show ?thesis
          using goes_before_trans [OF c pA mA _ gb] by blast
      qed
      have "mid - left < right - left" using m by simp
      moreover have "left \<le> mid" "mid \<le> length xs" using m by simp_all
      ultimately show ?thesis
        unfolding e using less.prems(3) above by (intro less.hyps) blast+
    next
      case ngb: False
      have e: "insertionPoint cmp pivot xs left right = insertionPoint cmp pivot xs (mid + 1) right"
        using True ngb by (subst insertionPoint.simps) (simp add: mid_def goes_before_def Let_def)
      have below: "\<not> goes_before cmp pivot (xs ! i)" if "i < mid + 1" for i
      proof (cases "i = mid")
        case True
        then show ?thesis using ngb by simp
      next
        case False
        then have "i < mid" using that by simp
        then have "\<not> goes_before cmp (xs ! mid) (xs ! i)"
          using sorted_wrt_nth_less [OF s, of i mid] m(3) by simp
        moreover have "xs ! i \<in> A" using \<open>i < mid\<close> m(3) xA by auto
        ultimately show ?thesis
          using consistent_on_trans [OF c pA mA _ ngb] by blast
      qed
      have "right - (mid + 1) < right - left" using m by simp
      moreover have "mid + 1 \<le> right" using m by simp
      ultimately show ?thesis
        unfolding e using less.prems(2,4) below by (intro less.hyps) blast+
    qed
  qed
qed

lemma sorted_binaryInsert:
  assumes c: "consistent_on cmp A" and pA: "pivot \<in> A" and xA: "set xs \<subseteq> A"
    and s: "sorted_wrt (\<lambda>a b. \<not> goes_before cmp b a) xs"
  shows "sorted_wrt (\<lambda>a b. \<not> goes_before cmp b a) (binaryInsert cmp xs pivot)"
proof -
  define k where "k = insertionPoint cmp pivot xs 0 (length xs)"
  have "k \<le> length xs
      \<and> (\<forall>i<k. \<not> goes_before cmp pivot (xs ! i))
      \<and> (\<forall>i. k \<le> i \<and> i < length xs \<longrightarrow> goes_before cmp pivot (xs ! i))"
    unfolding k_def by (rule insertionPoint_spec [OF c pA xA s]) auto
  then have spec: "k \<le> length xs"
      "\<forall>i<k. \<not> goes_before cmp pivot (xs ! i)"
      "\<forall>i. k \<le> i \<and> i < length xs \<longrightarrow> goes_before cmp pivot (xs ! i)"
    by blast+
  have before: "\<not> goes_before cmp pivot x" if "x \<in> set (take k xs)" for x
  proof -
    have "\<exists>i<length (take k xs). take k xs ! i = x"
      using that by (simp only: in_set_conv_nth)
    then obtain i where "i < length (take k xs)" and "take k xs ! i = x" by blast
    then have "i < k" and "x = xs ! i" by simp_all
    then show ?thesis using spec(2) by simp
  qed
  have after: "\<not> goes_before cmp y pivot" if "y \<in> set (drop k xs)" for y
  proof -
    have "\<exists>i<length (drop k xs). drop k xs ! i = y"
      using that by (simp only: in_set_conv_nth)
    then obtain i where "i < length (drop k xs)" and "drop k xs ! i = y" by blast
    then have "k + i < length xs" and "y = xs ! (k + i)" using spec(1) by simp_all
    then have "goes_before cmp pivot y" "y \<in> A" using spec(3) xA by auto
    then show ?thesis using consistent_on_asym [OF c pA] by blast
  qed
  have "sorted_wrt (\<lambda>a b. \<not> goes_before cmp b a) (take k xs @ drop k xs)"
    using s by simp
  then have "sorted_wrt (\<lambda>a b. \<not> goes_before cmp b a) (take k xs @ pivot # drop k xs)"
    using before after unfolding sorted_wrt_append by auto
  then show ?thesis by (simp add: binaryInsert_def k_def Let_def)
qed

lemma sorted_foldl_binaryInsert:
  assumes "consistent_on cmp A"
  shows "set run \<subseteq> A \<Longrightarrow> set rest \<subseteq> A \<Longrightarrow> sorted_wrt (\<lambda>a b. \<not> goes_before cmp b a) run \<Longrightarrow>
    sorted_wrt (\<lambda>a b. \<not> goes_before cmp b a) (foldl (binaryInsert cmp) run rest)"
proof (induction rest arbitrary: run)
  case Nil
  then show ?case by simp
next
  case (Cons p rest)
  have "sorted_wrt (\<lambda>a b. \<not> goes_before cmp b a) (binaryInsert cmp run p)"
    using Cons.prems by (intro sorted_binaryInsert [OF assms]) simp_all
  moreover have "set (binaryInsert cmp run p) \<subseteq> A"
    using Cons.prems by (simp add: set_binaryInsert)
  moreover have "set rest \<subseteq> A" using Cons.prems by simp
  ultimately show ?case using Cons.IH by simp
qed

lemma sorted_js_sort:
  assumes "consistent_on cmp A" and "set xs \<subseteq> A"
  shows "sorted_wrt (\<lambda>a b. \<not> goes_before cmp b a) (js_sort cmp xs)"
proof -
  let ?c = "countAndMakeRun cmp xs"
  have "set (fst ?c) \<subseteq> A" "set (snd ?c) \<subseteq> A"
    using set_countAndMakeRun [of cmp xs] assms(2) by auto
  moreover have "sorted_wrt (\<lambda>a b. \<not> goes_before cmp b a) (fst ?c)"
    using assms by (rule sorted_countAndMakeRun)
  ultimately have "sorted_wrt (\<lambda>a b. \<not> goes_before cmp b a) (foldl (binaryInsert cmp) (fst ?c) (snd ?c))"
    by (rule sorted_foldl_binaryInsert [OF assms(1)])
  then show ?thesis by (simp add: js_sort_def case_prod_beta)
qed

lemma extendRun_sorted_id:
  "sorted_wrt (\<lambda>a b. \<not> goes_before cmp b a) (p # xs) \<Longrightarrow> extendRun cmp False p xs = (xs, [])"
  by (induction xs arbitrary: p) (simp_all add: goes_before_def)

lemma js_sort_sorted_id:
  assumes "sorted_wrt (\<lambda>a b. \<not> goes_before cmp b a) xs"
  shows "js_sort cmp xs = xs"
proof (cases "(cmp, xs)" rule: countAndMakeRun.cases)
  case (3 c h l rest)
  have "\<not> goes_before cmp l h" and "sorted_wrt (\<lambda>a b. \<not> goes_before cmp b a) (l # rest)"
    using assms 3 by simp_all
  then have "countAndMakeRun cmp (h # l # rest) = (h # l # rest, [])"
    using extendRun_sorted_id [of cmp l rest] by (simp add: goes_before_def)
  then show ?thesis using 3 by (simp add: js_sort_def)
qed (simp_all add: js_sort_def)

lemma set_filterLoop: "set (filterLoop tree cidrs) \<subseteq> set cidrs"
  by (induction cidrs arbitrary: tree) (auto simp: Let_def)

lemma sorted_filterLoop:
  "sorted_wrt P cidrs \<Longrightarrow> sorted_wrt P (filterLoop tree cidrs)"
proof (induction cidrs arbitrary: tree)
  case Nil
  then show ?case by simp
next
  case (Cons c cs)
  then show ?case
    using set_filterLoop [of "RadixTree_insert tree (binaryPrefixOf c)" cs]
    by (auto simp: Let_def)
qed

lemma distinct_filterLoop:
  "distinct cidrs \<Longrightarrow> distinct (filterLoop tree cidrs)"
proof (induction cidrs arbitrary: tree)
  case Nil
  then show ?case by simp
next
  case (Cons c cs)
  then show ?case
    using set_filterLoop [of "RadixTree_insert tree (binaryPrefixOf c)" cs]
    by (auto simp: Let_def)
qed

lemma filterLoop_idem:
  "filterLoop tree (filterLoop tree cidrs) = filterLoop tree cidrs"
  by (induction cidrs arbitrary: tree) (auto simp: Let_def)

lemma foldl_set_add: "distinct (s @ xs) \<Longrightarrow> foldl set_add s xs = s @ xs"
  by (induction xs arbitrary: s) (auto simp: set_add_def)

lemma new_Set_distinct: "distinct xs \<Longrightarrow> new_Set xs = xs"
  using foldl_set_add [of "[]" xs] by (simp add: new_Set_def)

lemma compareCidrs_consistent:
  "consistent_on compareCidrs {c. prefixLengthParses c}"
  unfolding consistent_on_def goes_before_def
  apply (intro conjI ballI impI)
   apply (auto simp: compareCidrs_def prefixLengthParses_def Let_def js_lt_def js_sub_def split: number.splits if_splits)
  done

text \<open>
  Claim C9: running \<open>filterContainedCIDRsRadix\<close> on its own result gives the same set,
  for every collection. Evaluated on six distinct keys, two of which have a prefix
  length that does not read as a number (\<open>parseInt\<close> gives \<open>NaN\<close>, the comparator then
  answers \<open>NaN\<close>, and such a key has the empty binary prefix). The sort leaves the six
  keys as they are, one ascending run, with 10.0.0.0/9 ahead of 10.1.0.0/8. The first
  run drops 8.8.8.8/y and keeps five keys. With 8.8.8.8/y gone the second sort finds
  10.1.0.0/8 below its predecessor 10.0.0.0/9 and moves it ahead; 10.0.0.0/9 is then
  found covered, and the second run keeps four keys.
\<close>

theorem filterContainedCIDRsRadix_second_run_drops_entry:
  "distinct [''10.0.0.0/8'', ''8.0.0.0/8'', ''9.9.9.9/x'', ''10.0.0.0/9'', ''8.8.8.8/y'', ''10.1.0.0/8'']
   \<and> \<not> prefixLengthParses ''9.9.9.9/x'' \<and> \<not> prefixLengthParses ''8.8.8.8/y''
   \<and> js_sort compareCidrs
         [''10.0.0.0/8'', ''8.0.0.0/8'', ''9.9.9.9/x'', ''10.0.0.0/9'', ''8.8.8.8/y'', ''10.1.0.0/8'']
        = [''10.0.0.0/8'', ''8.0.0.0/8'', ''9.9.9.9/x'', ''10.0.0.0/9'', ''8.8.8.8/y'', ''10.1.0.0/8'']
   \<and> filterContainedCIDRsRadix
         [''10.0.0.0/8'', ''8.0.0.0/8'', ''9.9.9.9/x'', ''10.0.0.0/9'', ''8.8.8.8/y'', ''10.1.0.0/8'']
        = [''10.0.0.0/8'', ''8.0.0.0/8'', ''9.9.9.9/x'', ''10.0.0.0/9'', ''10.1.0.0/8'']
   \<and> js_sort compareCidrs
         [''10.0.0.0/8'', ''8.0.0.0/8'', ''9.9.9.9/x'', ''10.0.0.0/9'', ''10.1.0.0/8'']
        = [''10.0.0.0/8'', ''8.0.0.0/8'', ''9.9.9.9/x'', ''10.1.0.0/8'', ''10.0.0.0/9'']
   \<and> filterContainedCIDRsRadix
         [''10.0.0.0/8'', ''8.0.0.0/8'', ''9.9.9.9/x'', ''10.0.0.0/9'', ''10.1.0.0/8'']
        = [''10.0.0.0/8'', ''8.0.0.0/8'', ''9.9.9.9/x'', ''10.1.0.0/8'']
   \<and> filterContainedCIDRsRadix (filterContainedCIDRsRadix
         [''10.0.0.0/8'', ''8.0.0.0/8'', ''9.9.9.9/x'', ''10.0.0.0/9'', ''8.8.8.8/y'', ''10.1.0.0/8''])
        \<noteq> filterContainedCIDRsRadix
         [''10.0.0.0/8'', ''8.0.0.0/8'', ''9.9.9.9/x'', ''10.0.0.0/9'', ''8.8.8.8/y'', ''10.1.0.0/8'']"
  by code_simp

text \<open>
  Claim C9, as the code has it: the deduplicator is idempotent on the keys of a map
  (pairwise distinct) whose prefix lengths read as numbers, as in every \<open>a.b.c.d\<close> and
  \<open>a.b.c.d/n\<close>. Running \<open>filterContainedCIDRsRadix\<close> on its own result then returns that
  result, in the same order.
\<close>

theorem filterContainedCIDRsRadix_idempotent:
  assumes "distinct keys" and "list_all prefixLengthParses keys"
  shows "filterContainedCIDRsRadix (filterContainedCIDRsRadix keys) = filterContainedCIDRsRadix keys"
proof -
  let ?P = "\<lambda>a b. \<not> goes_before compareCidrs b a"
  let ?s = "js_sort compareCidrs keys"
  let ?k = "filterLoop newRadixTree ?s"
  have "set keys \<subseteq> {c. prefixLengthParses c}"
    using assms(2) by (auto simp: list_all_iff)
  then have "sorted_wrt ?P ?s"
    using sorted_js_sort [OF compareCidrs_consistent] by blast
  then have "sorted_wrt ?P ?k" by (rule sorted_filterLoop)
  then have sort_id: "js_sort compareCidrs ?k = ?k" by (rule js_sort_sorted_id)
  have "distinct ?k"
    using assms(1) by (simp add: distinct_filterLoop distinct_js_sort)
  then have first: "filterContainedCIDRsRadix keys = ?k"
    by (simp add: filterContainedCIDRsRadix_def new_Set_distinct)
  have "filterContainedCIDRsRadix ?k = new_Set (filterLoop newRadixTree ?k)"
    by (simp add: filterContainedCIDRsRadix_def sort_id)
  also have "\<dots> = new_Set ?k" by (simp add: filterLoop_idem)
  also have "\<dots> = ?k" using \<open>distinct ?k\<close> by (rule new_Set_distinct)
  finally show ?thesis using first by simp
qed


theorem filterContainedCIDRsRadix_idempotent_witness:
  "distinct [''192.168.1.0/24'', ''10.0.1.5'', ''192.168.0.0/16'', ''10.0.0.0/24'', ''10.0.1.0/24'']
   \<and> list_all prefixLengthParses [''192.168.1.0/24'', ''10.0.1.5'', ''192.168.0.0/16'', ''10.0.0.0/24'', ''10.0.1.0/24'']
   \<and> filterContainedCIDRsRadix [''192.168.1.0/24'', ''10.0.1.5'', ''192.168.0.0/16'', ''10.0.0.0/24'', ''10.0.1.0/24'']
        = [''192.168.0.0/16'', ''10.0.0.0/24'', ''10.0.1.0/24'', ''10.0.1.5'']
   \<and> filterContainedCIDRsRadix [''192.168.0.0/16'', ''10.0.0.0/24'', ''10.0.1.0/24'', ''10.0.1.5'']
        = [''192.168.0.0/16'', ''10.0.0.0/24'', ''10.0.1.0/24'', ''10.0.1.5'']"
proof -
  let ?keys = "[''192.168.1.0/24'', ''10.0.1.5'', ''192.168.0.0/16'', ''10.0.0.0/24'', ''10.0.1.0/24'']"
  have d: "distinct ?keys" by simp
  have p: "list_all prefixLengthParses ?keys" by code_simp
  have v: "filterContainedCIDRsRadix ?keys = [''192.168.0.0/16'', ''10.0.0.0/24'', ''10.0.1.0/24'', ''10.0.1.5'']"
    by code_simp
  from filterContainedCIDRsRadix_idempotent [OF d p] d p v show ?thesis by simp
qed

lemma filterLoop_discarded_covered:
  assumes "rootWithin tree P" and "c \<in> set cidrs" and "c \<notin> set (filterLoop tree cidrs)"
  shows "\<exists>p\<in>P \<union> binaryPrefixOf ` set (filterLoop tree cidrs). startsWith (binaryPrefixOf c) p"
  using assms
proof (induction cidrs arbitrary: tree P)
  case Nil
  then show ?case by simp
next
  case (Cons x xs)
  show ?case
  proof (cases "RadixTree_search tree (binaryPrefixOf x)")
    case True
    then have fl: "filterLoop tree (x # xs) = filterLoop tree xs" by (simp add: Let_def)
    show ?thesis
    proof (cases "c = x")
      case True
      with \<open>RadixTree_search tree (binaryPrefixOf x)\<close> Cons.prems(1)
      have "\<exists>p\<in>P. startsWith (binaryPrefixOf c) p" using rootWithin_search by blast
      then show ?thesis by blast
    next
      case False
      then have "c \<in> set xs" "c \<notin> set (filterLoop tree xs)"
        using Cons.prems fl by auto
      from Cons.IH [OF Cons.prems(1) this] show ?thesis unfolding fl .
    qed
  next
    case False
    then have fl: "filterLoop tree (x # xs) = x # filterLoop (RadixTree_insert tree (binaryPrefixOf x)) xs"
      by (simp add: Let_def)
    have "c \<noteq> x" using Cons.prems(3) fl by auto
    then have "c \<in> set xs" "c \<notin> set (filterLoop (RadixTree_insert tree (binaryPrefixOf x)) xs)"
      using Cons.prems fl by auto
    from Cons.IH [OF rootWithin_insert [OF Cons.prems(1)] this]
    show ?thesis unfolding fl by auto
  qed
qed

lemma set_new_Set_aux: "set (foldl set_add s xs) = set s \<union> set xs"
  by (induction xs arbitrary: s) (auto simp: set_add_def)

lemma set_new_Set: "set (new_Set xs) = set xs"
  by (simp add: new_Set_def set_new_Set_aux)

text \<open>
  What does hold of the entries the deduplicator drops: the binary prefix of a dropped
  entry starts with the binary prefix of an entry that is kept.
\<close>

lemma discarded_entry_below_kept_entry:
  assumes "c \<in> set keys" and "c \<notin> set (filterContainedCIDRsRadix keys)"
  shows "\<exists>k\<in>set (filterContainedCIDRsRadix keys). startsWith (binaryPrefixOf c) (binaryPrefixOf k)"
proof -
  let ?s = "js_sort compareCidrs keys"
  have "c \<in> set ?s" using assms(1) by (simp add: set_js_sort)
  moreover have "c \<notin> set (filterLoop newRadixTree ?s)"
    using assms(2) by (simp add: filterContainedCIDRsRadix_def set_new_Set)
  ultimately have "\<exists>p\<in>{} \<union> binaryPrefixOf ` set (filterLoop newRadixTree ?s). startsWith (binaryPrefixOf c) p"
    by (rule filterLoop_discarded_covered [OF rootWithin_new])
  then show ?thesis
    by (auto simp: filterContainedCIDRsRadix_def set_new_Set)
qed

section \<open>The range index\<close>

text \<open>
  Claim C4: for an index loaded from disjoint entries, \<open>isBlocked\<close> is true exactly for
  the addresses inside the bounds of some entry. Evaluated on the index loaded from the
  single entry 0.0.0.0/0, whose bounds are stored as 0 and 4294967295: the address
  128.0.0.1 has the value 2147483649, \<open>ipToNumber\<close> reads it as a negative number, and
  it is reported as not blocked. Likewise the index loaded from 192.168.0.0/16 blocks
  the text 192.168.1.1 and does not block the same address given as its value
  3232235777.
\<close>

theorem isBlocked_misses_high_addresses:
  "(addressValue ''128.0.0.1'' = 2147483649 \<and> addressValue ''192.168.1.1'' = 3232235777)
   \<and> validDottedQuad ''128.0.0.1''
   \<and> ranges (load new_IpChecker ''0.0.0.0/0'') = [(Num 0, Num 4294967295)]
   \<and> ipToNumber ''128.0.0.1'' = Num (- 2147483647)
   \<and> IpChecker_isBlocked (load new_IpChecker ''0.0.0.0/0'') (Inl ''128.0.0.1'') = Inr False
   \<and> IpChecker_isBlocked (load new_IpChecker ''192.168.0.0/16'') (Inl ''192.168.1.1'') = Inr True
   \<and> IpChecker_isBlocked (load new_IpChecker ''192.168.0.0/16'') (Inr (Num 3232235777)) = Inr False"
proof (rule conjI)
  show "addressValue ''128.0.0.1'' = 2147483649 \<and> addressValue ''192.168.1.1'' = 3232235777"
    by (simp add: addressValue_def base256_def digitsVal_def digitVal_def)
  show "validDottedQuad ''128.0.0.1''
   \<and> ranges (load new_IpChecker ''0.0.0.0/0'') = [(Num 0, Num 4294967295)]
   \<and> ipToNumber ''128.0.0.1'' = Num (- 2147483647)
   \<and> IpChecker_isBlocked (load new_IpChecker ''0.0.0.0/0'') (Inl ''128.0.0.1'') = Inr False
   \<and> IpChecker_isBlocked (load new_IpChecker ''192.168.0.0/16'') (Inl ''192.168.1.1'') = Inr True
   \<and> IpChecker_isBlocked (load new_IpChecker ''192.168.0.0/16'') (Inr (Num 3232235777)) = Inr False"
    by code_simp
qed

text \<open>
  Claim C8: on an \<open>IpChecker\<close> that was never loaded, or whose range list is empty,
  \<open>isBlocked\<close> returns false for every address, text or number, and raises nothing.
\<close>

theorem isBlocked_empty_index:
  assumes "checker = new_IpChecker \<or> ranges checker = []"
  shows "IpChecker_isBlocked checker ip = Inr False"
proof -
  have "ranges checker = []"
    using assms by (auto simp: new_IpChecker_def)
  then show ?thesis
    by (simp add: IpChecker_isBlocked_def isBlocked_loop.simps [of "[]" _ 0 "- 1"])
qed

lemma load_empty_file: "ranges (load checker []) = []"
  by (simp add: load_def trim_def js_sort_def)

theorem isBlocked_empty_index_witness:
  "IpChecker_isBlocked new_IpChecker (Inl ''1.1.1.5'') = Inr False
   \<and> ranges (load new_IpChecker []) = []
   \<and> IpChecker_isBlocked (load new_IpChecker []) (Inr (Num 16843013)) = Inr False"
  using isBlocked_empty_index [of new_IpChecker "Inl ''1.1.1.5''"]
        isBlocked_empty_index [of "load new_IpChecker []" "Inr (Num 16843013)"]
  by (simp add: load_empty_file)

lemma at_nth: "i < length xs \<Longrightarrow> at xs i = Some (xs ! i)"
proof (induction xs i rule: at.induct)
  case (1 i)
  then show ?case by simp
next
  case (2 x xs)
  then show ?case by simp
next
  case (3 x xs i)
  then show ?case by simp
qed

lemma isBlocked_loop_sound_complete:
  assumes sorted: "sorted_wrt (\<lambda>r1 r2. snd r1 < fst r2) rs"
    and wf: "list_all (\<lambda>r. fst r \<le> snd r) rs"
  shows "0 \<le> l \<Longrightarrow> r < int (length rs) \<Longrightarrow>
         isBlocked_loop (numRanges rs) (Num a) l r
           = Inr (\<exists>i. l \<le> int i \<and> int i \<le> r \<and> hit a (rs ! i))"
proof (induction "numRanges rs" "Num a" l r rule: isBlocked_loop.induct)
  case (1 left right)
  show ?case
  proof (cases "left \<le> right")
    case False
    then show ?thesis
      by (subst isBlocked_loop.simps) auto
  next
    case True
    define mid where "mid = (left + right) div 2"
    have mid: "left \<le> mid" "mid \<le> right" "0 \<le> mid" "nat mid < length rs"
      using True "1.prems" by (auto simp: mid_def)
    obtain s e where se: "rs ! nat mid = (s, e)" by (cases "rs ! nat mid")
    have at_mid: "at (numRanges rs) (nat mid) = Some (Num s, Num e)"
      using mid se by (simp add: at_nth numRanges_def)
    have s_le_e: "s \<le> e"
      using wf mid se by (auto simp: list_all_length dest!: spec [of _ "nat mid"])
    have later: "e < fst (rs ! j)" if "nat mid < j" "j < length rs" for j
      using sorted_wrt_nth_less [OF sorted that] se by simp
    have earlier: "snd (rs ! j) < s" if "j < nat mid" for j
      using sorted_wrt_nth_less [OF sorted that mid(4)] se by simp
    have unfold: "isBlocked_loop (numRanges rs) (Num a) left right =
        (if a < s then isBlocked_loop (numRanges rs) (Num a) left (mid - 1)
         else if e < a then isBlocked_loop (numRanges rs) (Num a) (mid + 1) right
         else Inr True)"
      using True mid at_mid
      by (subst isBlocked_loop.simps) (simp add: mid_def [symmetric] Let_def js_lt_def js_gt_def)
    show ?thesis
    proof (cases "a < s")
      case lt: True
      have "isBlocked_loop (numRanges rs) (Num a) left (mid - 1)
              = Inr (\<exists>i. left \<le> int i \<and> int i \<le> mid - 1 \<and> hit a (rs ! i))"
        using True at_mid lt mid "1.prems"
        by (intro "1.hyps"(1) [of mid "(Num s, Num e)" "Num s" "Num e"])
           (auto simp: mid_def js_lt_def)
      moreover have "\<not> hit a (rs ! i)" if "mid \<le> int i" "int i \<le> right" for i
      proof (cases "int i = mid")
        case True
        then have "i = nat mid" by simp
        then show ?thesis using lt se by (simp add: hit_def)
      next
        case False
        then have "nat mid < i" "i < length rs" using that "1.prems" mid by auto
        from later [OF this] lt s_le_e show ?thesis by (simp add: hit_def)
      qed
      ultimately have ih: "isBlocked_loop (numRanges rs) (Num a) left (mid - 1)
              = Inr (\<exists>i. left \<le> int i \<and> int i \<le> mid - 1 \<and> hit a (rs ! i))"
        and miss: "\<And>i. mid \<le> int i \<Longrightarrow> int i \<le> right \<Longrightarrow> \<not> hit a (rs ! i)"
        by blast+
      have "(\<exists>i. left \<le> int i \<and> int i \<le> mid - 1 \<and> hit a (rs ! i))
              = (\<exists>i. left \<le> int i \<and> int i \<le> right \<and> hit a (rs ! i))"
      proof
        assume "\<exists>i. left \<le> int i \<and> int i \<le> mid - 1 \<and> hit a (rs ! i)"
        then obtain i where "left \<le> int i" "int i \<le> mid - 1" "hit a (rs ! i)" by blast
        moreover from this mid(2) have "int i \<le> right" by simp
        ultimately show "\<exists>i. left \<le> int i \<and> int i \<le> right \<and> hit a (rs ! i)" by blast
      next
        assume "\<exists>i. left \<le> int i \<and> int i \<le> right \<and> hit a (rs ! i)"
        then obtain i where i: "left \<le> int i" "int i \<le> right" "hit a (rs ! i)" by blast
        have "\<not> mid \<le> int i" using miss [of i] i by blast
        then have "int i \<le> mid - 1" by simp
        with i show "\<exists>i. left \<le> int i \<and> int i \<le> mid - 1 \<and> hit a (rs ! i)" by blast
      qed
      then show ?thesis
        using unfold lt ih by simp
    next
      case nlt: False
      show ?thesis
      proof (cases "e < a")
        case gt: True
        have "isBlocked_loop (numRanges rs) (Num a) (mid + 1) right
                = Inr (\<exists>i. mid + 1 \<le> int i \<and> int i \<le> right \<and> hit a (rs ! i))"
          using True at_mid nlt gt mid "1.prems"
          by (intro "1.hyps"(2) [of mid "(Num s, Num e)" "Num s" "Num e"])
             (auto simp: mid_def js_lt_def js_gt_def)
        moreover have "\<not> hit a (rs ! i)" if "left \<le> int i" "int i \<le> mid" for i
        proof (cases "int i = mid")
          case True
          then have "i = nat mid" by simp
          then show ?thesis using gt se by (simp add: hit_def)
        next
          case False
          then have "i < nat mid" using that mid by auto
          from earlier [OF this] gt s_le_e show ?thesis by (simp add: hit_def)
        qed
        ultimately have ih: "isBlocked_loop (numRanges rs) (Num a) (mid + 1) right
                = Inr (\<exists>i. mid + 1 \<le> int i \<and> int i \<le> right \<and> hit a (rs ! i))"
          and miss: "\<And>i. left \<le> int i \<Longrightarrow> int i \<le> mid \<Longrightarrow> \<not> hit a (rs ! i)"
          by blast+
        have "(\<exists>i. mid + 1 \<le> int i \<and> int i \<le> right \<and> hit a (rs ! i))
                = (\<exists>i. left \<le> int i \<and> int i \<le> right \<and> hit a (rs ! i))"
        proof
          assume "\<exists>i. mid + 1 \<le> int i \<and> int i \<le> right \<and> hit a (rs ! i)"
          then obtain i where "mid + 1 \<le> int i" "int i \<le> right" "hit a (rs ! i)" by blast
          moreover from this mid(1) have "left \<le> int i" by simp
          ultimately show "\<exists>i. left \<le> int i \<and> int i \<le> right \<and> hit a (rs ! i)" by blast
        next
          assume "\<exists>i. left \<le> int i \<and> int i \<le> right \<and> hit a (rs ! i)"
          then obtain i where i: "left \<le> int i" "int i \<le> right" "hit a (rs ! i)" by blast
          have "\<not> int i \<le> mid" using miss [of i] i by blast
          then have "mid + 1 \<le> int i" by simp
          with i show "\<exists>i. mid + 1 \<le> int i \<and> int i \<le> right \<and> hit a (rs ! i)" by blast
        qed
        then show ?thesis
          using unfold nlt gt ih by simp
      next
        case False
        then have "hit a (rs ! nat mid)" using nlt se by (simp add: hit_def)
        moreover have "left \<le> int (nat mid)" "int (nat mid) \<le> right" using mid by auto
        ultimately have "\<exists>i. left \<le> int i \<and> int i \<le> right \<and> hit a (rs ! i)" by blast
        then show ?thesis using unfold nlt False by simp
      qed
    qed
  qed
qed

text \<open>
  The binary search itself: on ranges with numeric bounds, each with \<open>start \<le> end\<close>,
  listed in ascending order without overlap, \<open>isBlocked\<close> of example/index.js answers
  exactly whether the number lies within one of them.
\<close>

lemma isBlocked_binary_search:
  assumes "sorted_wrt (\<lambda>r1 r2. snd r1 < fst r2) rs"
    and "list_all (\<lambda>r. fst r \<le> snd r) rs"
  shows "isBlocked (Num a) (numRanges rs) = Inr (\<exists>r\<in>set rs. fst r \<le> a \<and> a \<le> snd r)"
proof -
  have "isBlocked (Num a) (numRanges rs)
          = Inr (\<exists>i. 0 \<le> int i \<and> int i \<le> int (length rs) - 1 \<and> hit a (rs ! i))"
    unfolding isBlocked_def
    using isBlocked_loop_sound_complete [OF assms, of 0 "int (length rs) - 1" a]
    by (simp add: numRanges_def)
  moreover have "(\<exists>i. 0 \<le> int i \<and> int i \<le> int (length rs) - 1 \<and> hit a (rs ! i))
                   = (\<exists>r\<in>set rs. fst r \<le> a \<and> a \<le> snd r)"
  proof
    assume "\<exists>i. 0 \<le> int i \<and> int i \<le> int (length rs) - 1 \<and> hit a (rs ! i)"
    then obtain i where "int i \<le> int (length rs) - 1" and h: "hit a (rs ! i)" by blast
    then have "i < length rs" by simp
    then have "rs ! i \<in> set rs" by simp
    with h show "\<exists>r\<in>set rs. fst r \<le> a \<and> a \<le> snd r" unfolding hit_def by blast
  next
    assume "\<exists>r\<in>set rs. fst r \<le> a \<and> a \<le> snd r"
    then obtain r where "r \<in> set rs" and h: "fst r \<le> a \<and> a \<le> snd r" by blast
    then obtain i where i: "i < length rs" "rs ! i = r" by (auto simp: in_set_conv_nth)
    then have "0 \<le> int i \<and> int i \<le> int (length rs) - 1 \<and> hit a (rs ! i)"
      using h by (simp add: hit_def)
    then show "\<exists>i. 0 \<le> int i \<and> int i \<le> int (length rs) - 1 \<and> hit a (rs ! i)" by blast
  qed
  ultimately show ?thesis by simp
qed

section \<open>The scenarios of the specification\<close>

text \<open>The five scenarios the specification lists, run on the model.\<close>

lemma scenario_decompose_two_nets:
  "rangeToCIDRs ''192.168.0.0'' ''192.168.1.255'' = Inr [''192.168.0.0/23'']"
  by code_simp

lemma scenario_decompose_one_address:
  "rangeToCIDRs ''10.0.0.1'' ''10.0.0.1'' = Inr [''10.0.0.1/32'']"
  by code_simp

lemma scenario_dedup_contained:
  "filterContainedCIDRsRadix [''192.168.0.0/16'', ''192.168.1.0/24''] = [''192.168.0.0/16'']"
  by code_simp

lemma scenario_dedup_siblings:
  "filterContainedCIDRsRadix [''10.0.0.0/24'', ''10.0.1.0/24''] = [''10.0.0.0/24'', ''10.0.1.0/24'']"
  by code_simp

lemma scenario_index_lookup:
  "IpChecker_isBlocked (load new_IpChecker ''1.1.1.0/24'') (Inl ''1.1.1.5'') = Inr True
   \<and> IpChecker_isBlocked (load new_IpChecker ''1.1.1.0/24'') (Inl ''1.1.2.5'') = Inr False"
  by code_simp

end
